theory Spec2Isabelle
  imports Complex_Main
begin

section \<open>Values held in a table cell\<close>

text \<open>
  This theory models \<^verbatim>\<open>streamlit_app.py\<close>: the reminder store (\<open>load_reminders\<close>,
  \<open>save_reminder_to_csv\<close>, \<open>update_reminder_status\<close>), the parse of the free text
  (\<open>parse_with_gemini\<close>), \<open>is_overdue\<close>, and the handlers and dashboard code at module
  level that use them.  The calls into pandas, \<^verbatim>\<open>json\<close> and \<^verbatim>\<open>datetime\<close> are modelled by
  what these libraries do with the values the application hands them; where that depends
  on the library's version or on its parser, the library function is a parameter.

  The reminders live in a pandas DataFrame read from and written to \<^verbatim>\<open>reminders.csv\<close>.
  A cell holds a Python scalar: \<^verbatim>\<open>None\<close>, the float \<^verbatim>\<open>nan\<close>, an integer or a string.
  Floats other than \<^verbatim>\<open>nan\<close> and booleans do not occur in what the application writes and
  are not modelled.  Strings are lists of bytes.
\<close>

datatype cell = NoneV | NaN | IntV int | StrV string

text \<open>\<^verbatim>\<open>pd.isna(v)\<close> on a scalar.\<close>

fun isna :: "cell \<Rightarrow> bool" where
  "isna NoneV = True"
| "isna NaN = True"
| "isna (IntV i) = False"
| "isna (StrV s) = False"

text \<open>Python truthiness of a scalar, as \<^verbatim>\<open>not v\<close> tests it (\<^verbatim>\<open>nan\<close> is truthy).\<close>

fun truthy :: "cell \<Rightarrow> bool" where
  "truthy NoneV = False"
| "truthy NaN = True"
| "truthy (IntV i) = (i \<noteq> 0)"
| "truthy (StrV s) = (s \<noteq> [])"

text \<open>
  \<^verbatim>\<open>==\<close> as pandas evaluates it element by element in \<^verbatim>\<open>series == value\<close>:
  a missing value equals nothing, not even itself, and values of different types differ.
\<close>

fun py_eq :: "cell \<Rightarrow> cell \<Rightarrow> bool" where
  "py_eq (IntV i) (IntV j) = (i = j)"
| "py_eq (StrV s) (StrV t) = (s = t)"
| "py_eq _ _ = False"

subsection \<open>Decimal text of integers\<close>

definition digit_char :: "nat \<Rightarrow> char" where
  "digit_char d = ''0123456789'' ! d"

fun index_of :: "'a \<Rightarrow> 'a list \<Rightarrow> nat option" where
  "index_of x [] = None"
| "index_of x (y # ys) = (if x = y then Some 0 else map_option Suc (index_of x ys))"

definition digit_val :: "char \<Rightarrow> nat option" where
  "digit_val c = index_of c ''0123456789''"

function digits :: "nat \<Rightarrow> string" where
  "digits n = (if n < 10 then [digit_char n] else digits (n div 10) @ [digit_char (n mod 10)])"
  by pat_completeness auto
termination
  by (relation "measure id") auto

declare digits.simps [simp del]

text \<open>\<^verbatim>\<open>str(i)\<close> for an integer.\<close>

definition show_int :: "int \<Rightarrow> string" where
  "show_int i = (if i < 0 then CHR ''-'' # digits (nat (- i)) else digits (nat i))"

fun parse_nat_acc :: "nat \<Rightarrow> string \<Rightarrow> nat option" where
  "parse_nat_acc a [] = Some a"
| "parse_nat_acc a (c # cs) =
     (case digit_val c of None \<Rightarrow> None | Some d \<Rightarrow> parse_nat_acc (10 * a + d) cs)"

definition parse_nat :: "string \<Rightarrow> nat option" where
  "parse_nat s = (if s = [] then None else parse_nat_acc 0 s)"

text \<open>
  The text the CSV reader takes for an integer: an optional sign and decimal digits.
  (The reader's 64-bit range and its tolerance of surrounding blanks are not modelled.)
\<close>

definition parse_int :: "string \<Rightarrow> int option" where
  "parse_int s =
     (case s of
        [] \<Rightarrow> None
      | c # cs \<Rightarrow>
          if c = CHR ''-'' then map_option (\<lambda>n. - int n) (parse_nat cs)
          else if c = CHR ''+'' then map_option int (parse_nat cs)
          else map_option int (parse_nat s))"

text \<open>\<^verbatim>\<open>str(v)\<close>.\<close>

fun py_str :: "cell \<Rightarrow> string" where
  "py_str NoneV = ''None''"
| "py_str NaN = ''nan''"
| "py_str (IntV i) = show_int i"
| "py_str (StrV s) = s"

section \<open>The DataFrame and its CSV form\<close>

text \<open>
  A DataFrame is held as pandas holds it, by column: the column names in order, each with
  its values.  All columns of a frame have the same length.
\<close>

type_synonym frame = "(string \<times> cell list) list"

text \<open>
  The CSV file is the text table: the header names, each with the text of the data fields
  below it.  Quoting and line structure belong to the CSV writer and reader and are taken
  to carry every field text unchanged.
\<close>

type_synonym csv = "(string \<times> string list) list"

datatype error = EmptyDataError | KeyError string | TitleRequired | AttributeError

definition len :: "frame \<Rightarrow> nat" where
  "len fr = (case fr of [] \<Rightarrow> 0 | (c, vs) # _ \<Rightarrow> length vs)"

text \<open>The texts \<^verbatim>\<open>read_csv\<close> takes for a missing value by default.\<close>

definition na_values :: "string list" where
  "na_values = ['''', ''#N/A'', ''#N/A N/A'', ''#NA'', ''-1.#IND'', ''-1.#QNAN'', ''-NaN'',
     ''-nan'', ''1.#IND'', ''1.#QNAN'', ''<NA>'', ''N/A'', ''NA'', ''NULL'', ''NaN'', ''None'',
     ''n/a'', ''nan'', ''null'']"

definition is_na :: "string \<Rightarrow> bool" where
  "is_na s = (s \<in> set na_values)"

text \<open>\<^verbatim>\<open>to_csv\<close> writes a missing value as the empty field (\<^verbatim>\<open>na_rep=''\<close>).\<close>

fun cell_to_field :: "cell \<Rightarrow> string" where
  "cell_to_field NoneV = []"
| "cell_to_field NaN = []"
| "cell_to_field (IntV i) = show_int i"
| "cell_to_field (StrV s) = s"

definition to_csv :: "frame \<Rightarrow> csv" where
  "to_csv fr = map (\<lambda>(c, vs). (c, map cell_to_field vs)) fr"

text \<open>
  \<^verbatim>\<open>read_csv\<close> types each column from its fields: a column whose present fields are all
  integers becomes numeric, any other column keeps its texts; missing fields become
  \<^verbatim>\<open>nan\<close>.  (pandas holds a numeric column with missing fields as floats; the value
  \<open>IntV i\<close> stands for that number too.  A column of decimal or boolean texts, which
  pandas types as floats or booleans, keeps its texts here.)
\<close>

definition infer_column :: "string list \<Rightarrow> cell list" where
  "infer_column fs =
     (let present = filter (\<lambda>f. \<not> is_na f) fs in
      if present \<noteq> [] \<and> list_all (\<lambda>f. parse_int f \<noteq> None) present
      then map (\<lambda>f. if is_na f then NaN else IntV (the (parse_int f))) fs
      else map (\<lambda>f. if is_na f then NaN else StrV f) fs)"

definition read_csv :: "csv \<Rightarrow> error + frame" where
  "read_csv f = (if f = [] then Inl EmptyDataError
                 else Inr (map (\<lambda>(c, fs). (c, infer_column fs)) f))"

text \<open>\<^verbatim>\<open>pd.DataFrame([d])\<close>: one row, the dict's keys as columns.\<close>

definition DataFrame :: "(string \<times> cell) list \<Rightarrow> frame" where
  "DataFrame d = map (\<lambda>(k, v). (k, [v])) d"

text \<open>
  \<^verbatim>\<open>pd.concat([a, b], ignore_index=True)\<close>: the union of the columns, those of \<open>a\<close> first;
  a frame without a column contributes \<^verbatim>\<open>nan\<close> for each of its rows.
\<close>

definition reindex_col :: "frame \<Rightarrow> string \<Rightarrow> cell list" where
  "reindex_col fr c = (case map_of fr c of Some vs \<Rightarrow> vs | None \<Rightarrow> replicate (len fr) NaN)"

definition concat_frames :: "frame \<Rightarrow> frame \<Rightarrow> frame" where
  "concat_frames a b =
     (let cols = map fst a @ filter (\<lambda>c. c \<notin> set (map fst a)) (map fst b)
      in map (\<lambda>c. (c, reindex_col a c @ reindex_col b c)) cols)"

text \<open>
  \<^verbatim>\<open>fr.loc[mask, c] = v\<close>: the cells of column \<open>c\<close> in the rows the selector picks become
  \<open>v\<close>; a column that does not exist yet is added, \<^verbatim>\<open>nan\<close> in the other rows.
\<close>

definition loc_set :: "frame \<Rightarrow> bool list \<Rightarrow> string \<Rightarrow> cell \<Rightarrow> frame" where
  "loc_set fr msk c v =
     (if c \<in> set (map fst fr)
      then map (\<lambda>(n, vs). if n = c then (n, map2 (\<lambda>m x. if m then v else x) msk vs) else (n, vs)) fr
      else fr @ [(c, map (\<lambda>m. if m then v else NaN) msk)])"

text \<open>Row \<open>i\<close> of a frame, as the pairs of column name and value.\<close>

definition row :: "frame \<Rightarrow> nat \<Rightarrow> (string \<times> cell) list" where
  "row fr i = map (\<lambda>(c, vs). (c, vs ! i)) fr"

section \<open>Application state and the reminder store\<close>

text \<open>
  What \<^verbatim>\<open>json.loads\<close> returns: \<open>JNull\<close> is Python's \<^verbatim>\<open>None\<close>, an object is a dict
  given by its items.  Numbers are taken as rationals.
\<close>

datatype json = JNull | JBool bool | JNum rat | JStr string | JArr "json list"
  | JObj "(string \<times> json) list"

text \<open>
  The state that outlives one run of the script: the file \<^verbatim>\<open>reminders.csv\<close>
  (\<open>None\<close> while it does not exist) and the three entries of \<^verbatim>\<open>st.session_state\<close>;
  a draft of \<open>JNull\<close> is no draft.
\<close>

record app_state =
  csv_file :: "csv option"
  reminders :: "frame option"
  parsed_reminder :: json
  api_enabled :: bool

definition schema :: "string list" where
  "schema = [''reminder_id'', ''raw_input'', ''title'', ''category'', ''date'', ''time'',
     ''priority'', ''notes'', ''status'', ''created_at'']"

definition load_reminders :: "app_state \<Rightarrow> error + frame" where
  "load_reminders w =
     (case csv_file w of
        Some f \<Rightarrow> read_csv f
      | None \<Rightarrow> Inr (map (\<lambda>c. (c, [])) schema))"

definition save_reminder_to_csv :: "app_state \<Rightarrow> (string \<times> cell) list \<Rightarrow> error + app_state" where
  "save_reminder_to_csv w reminder_data =
     (case load_reminders w of
        Inl e \<Rightarrow> Inl e
      | Inr rs \<Rightarrow>
          let new_reminder = DataFrame reminder_data;
              rs' = concat_frames rs new_reminder
          in Inr (w\<lparr>csv_file := Some (to_csv rs'), reminders := None\<rparr>))"

definition update_reminder_status :: "app_state \<Rightarrow> cell \<Rightarrow> cell \<Rightarrow> error + app_state" where
  "update_reminder_status w reminder_id status =
     (case load_reminders w of
        Inl e \<Rightarrow> Inl e
      | Inr rs \<Rightarrow>
          (case map_of rs ''reminder_id'' of
             None \<Rightarrow> Inl (KeyError ''reminder_id'')
           | Some ids \<Rightarrow>
               let msk = map (\<lambda>v. py_eq v reminder_id) ids;
                   rs' = loc_set rs msk ''status'' status
               in Inr (w\<lparr>csv_file := Some (to_csv rs'), reminders := None\<rparr>)))"

section \<open>Parsing the free text\<close>

text \<open>
  \<^verbatim>\<open>s.strip()\<close>.  The blanks are those of ASCII that Python strips (tab to carriage return,
  the four separators \<^verbatim>\<open>\\x1c\<close> to \<^verbatim>\<open>\\x1f\<close>, the space); blanks beyond ASCII are not modelled.
\<close>

definition is_space :: "char \<Rightarrow> bool" where
  "is_space c = (let n = (of_char c :: nat) in (9 \<le> n \<and> n \<le> 13) \<or> (28 \<le> n \<and> n \<le> 32))"

definition strip :: "string \<Rightarrow> string" where
  "strip s = rev (dropWhile is_space (rev (dropWhile is_space s)))"

text \<open>\<^verbatim>\<open>s.startswith(p)\<close> and \<^verbatim>\<open>s.split(sep)\<close> for a separator that is not empty.\<close>

definition startswith :: "string \<Rightarrow> string \<Rightarrow> bool" where
  "startswith s p = (take (length p) s = p)"

function split_from :: "string \<Rightarrow> string \<Rightarrow> string \<Rightarrow> string list" where
  "split_from sep acc s =
     (if s = [] then [rev acc]
      else if sep \<noteq> [] \<and> startswith s sep then rev acc # split_from sep [] (drop (length sep) s)
      else split_from sep (hd s # acc) (tl s))"
  by pat_completeness auto
termination
  by (relation "measure (\<lambda>(sep, acc, s). length s)") auto

declare split_from.simps [simp del]

definition str_split :: "string \<Rightarrow> string \<Rightarrow> string list" where
  "str_split s sep = split_from sep [] s"

text \<open>
  The text handed to \<^verbatim>\<open>json.loads\<close>: the response stripped and, when it opens with a
  fence, the piece between the first fence and the next, without a leading \<^verbatim>\<open>json\<close>, stripped
  again.  \<open>None\<close> stands for the \<^verbatim>\<open>IndexError\<close> of \<^verbatim>\<open>[1]\<close>.
\<close>

definition extract_json_text :: "string \<Rightarrow> string option" where
  "extract_json_text text =
     (let json_text = strip text in
      if startswith json_text ''```'' then
        (case str_split json_text ''```'' of
           a # b # rest \<Rightarrow> Some (strip (if startswith b ''json'' then drop 4 b else b))
         | _ \<Rightarrow> None)
      else Some json_text)"

text \<open>
  \<open>parse_with_gemini\<close>.  The completion endpoint is the parameter \<open>generate\<close>: the text of its
  response to the prompt built from the input, \<open>None\<close> where the call or the reading of the
  response raises.  \<^verbatim>\<open>json.loads\<close> is the parameter \<open>json_loads\<close>, \<open>None\<close> where it raises.
  Every exception ends in the \<^verbatim>\<open>except\<close> branch, which reports it and returns \<^verbatim>\<open>None\<close>.
\<close>

definition parse_with_gemini ::
  "(string \<Rightarrow> string option) \<Rightarrow> (string \<Rightarrow> json option) \<Rightarrow> string \<Rightarrow> json" where
  "parse_with_gemini generate json_loads user_input =
     (case generate user_input of
        None \<Rightarrow> JNull
      | Some text \<Rightarrow>
          (case extract_json_text text of
             None \<Rightarrow> JNull
           | Some json_text \<Rightarrow>
               (case json_loads json_text of
                  None \<Rightarrow> JNull
                | Some parsed \<Rightarrow> parsed)))"

text \<open>Python truthiness of a decoded value, as \<^verbatim>\<open>if parsed:\<close> tests it.\<close>

fun json_truthy :: "json \<Rightarrow> bool" where
  "json_truthy JNull = False"
| "json_truthy (JBool b) = b"
| "json_truthy (JNum n) = (n \<noteq> 0)"
| "json_truthy (JStr s) = (s \<noteq> [])"
| "json_truthy (JArr xs) = (xs \<noteq> [])"
| "json_truthy (JObj kvs) = (kvs \<noteq> [])"

text \<open>The body of \<^verbatim>\<open>if parse_button and user_input.strip():\<close>.\<close>

definition parse_button_handler ::
  "(string \<Rightarrow> string option) \<Rightarrow> (string \<Rightarrow> json option) \<Rightarrow> bool \<Rightarrow> string
     \<Rightarrow> app_state \<Rightarrow> app_state" where
  "parse_button_handler generate json_loads parse_button user_input w =
     (if parse_button \<and> strip user_input \<noteq> [] then
        (let parsed = parse_with_gemini generate json_loads user_input in
         if json_truthy parsed then w\<lparr>parsed_reminder := parsed\<rparr> else w)
      else w)"

text \<open>
  \<^verbatim>\<open>parsed.get("confidence", 0.8)\<close>, as the review section reads the draft's confidence.
  A value that is not a dict has no \<^verbatim>\<open>get\<close>.
\<close>

definition confidence :: "json \<Rightarrow> error + json" where
  "confidence parsed =
     (case parsed of
        JObj kvs \<Rightarrow> Inr (case map_of kvs ''confidence'' of Some v \<Rightarrow> v | None \<Rightarrow> JNum (4 / 5))
      | _ \<Rightarrow> Inl AttributeError)"

section \<open>Saving a reminder\<close>

text \<open>
  What the review form holds when \<^verbatim>\<open>Save Reminder\<close> is pressed: the text area of the
  first tab, the seven widgets of the form, and \<^verbatim>\<open>datetime.now().isoformat()\<close>.
\<close>

record form =
  user_input :: string
  title :: string
  category :: string
  date :: string
  time :: string
  priority :: string
  "notes" :: string
  created_at :: string

text \<open>
  The body of \<^verbatim>\<open>if st.button("Save Reminder", ...)\<close>.  A blank title is answered with
  \<^verbatim>\<open>st.error("Title is required.")\<close> and nothing is written (\<open>Inl TitleRequired\<close>).
  The dict built for the new row has nine keys: the form's notes are not among them.
\<close>

definition save_button_handler :: "app_state \<Rightarrow> form \<Rightarrow> error + app_state" where
  "save_button_handler w fm =
     (if strip (title fm) = [] then Inl TitleRequired
      else
        (case load_reminders w of
           Inl e \<Rightarrow> Inl e
         | Inr rs \<Rightarrow>
             let reminder_id = int (len rs) + 1;
                 reminder_data =
                   [(''reminder_id'', IntV reminder_id),
                    (''raw_input'', StrV (user_input fm)),
                    (''title'', StrV (title fm)),
                    (''category'', StrV (category fm)),
                    (''date'', if strip (date fm) \<noteq> [] then StrV (date fm) else NoneV),
                    (''time'', if strip (time fm) \<noteq> [] then StrV (time fm) else NoneV),
                    (''priority'', StrV (priority fm)),
                    (''status'', StrV ''pending''),
                    (''created_at'', StrV (created_at fm))]
             in (case save_reminder_to_csv w reminder_data of
                   Inl e \<Rightarrow> Inl e
                 | Inr w' \<Rightarrow> Inr (w'\<lparr>parsed_reminder := JNull, reminders := None\<rparr>))))"

text \<open>
  A run of save attempts.  An attempt that is rejected, or that fails, leaves the state as
  it was.
\<close>

fun appends :: "app_state \<Rightarrow> form list \<Rightarrow> app_state" where
  "appends w [] = w"
| "appends w (fm # fms) =
     (case save_button_handler w fm of
        Inl e \<Rightarrow> appends w fms
      | Inr w' \<Rightarrow> appends w' fms)"

text \<open>
  The three buttons that write to the store.  \<^verbatim>\<open>Mark as Completed\<close> sits in the branch for
  rows that are not completed, so it calls \<open>update_reminder_status\<close> with
  \<^verbatim>\<open>"completed"\<close>; \<^verbatim>\<open>Undo\<close> calls it with \<^verbatim>\<open>"pending"\<close>.  \<open>run\<close> is a sequence of
  presses; a press that is rejected, or that fails, leaves the state as it was.
\<close>

datatype action = Save form | Complete cell | Undo cell

fun run :: "app_state \<Rightarrow> action list \<Rightarrow> app_state" where
  "run w [] = w"
| "run w (Save fm # acts) =
     (case save_button_handler w fm of Inl e \<Rightarrow> run w acts | Inr w' \<Rightarrow> run w' acts)"
| "run w (Complete rid # acts) =
     (case update_reminder_status w rid (StrV ''completed'') of
        Inl e \<Rightarrow> run w acts | Inr w' \<Rightarrow> run w' acts)"
| "run w (Undo rid # acts) =
     (case update_reminder_status w rid (StrV ''pending'') of
        Inl e \<Rightarrow> run w acts | Inr w' \<Rightarrow> run w' acts)"


text \<open>The values of one column of the stored collection, as \<open>load_reminders\<close> gives them.\<close>

definition column :: "app_state \<Rightarrow> string \<Rightarrow> cell list" where
  "column w c =
     (case load_reminders w of
        Inl e \<Rightarrow> []
      | Inr rs \<Rightarrow> (case map_of rs c of None \<Rightarrow> [] | Some vs \<Rightarrow> vs))"

text \<open>A store with the fixed schema: no file yet, or a file with the ten columns, all of one length.\<close>

definition valid_csv :: "csv \<Rightarrow> bool" where
  "valid_csv f = (map fst f = schema \<and> list_all (\<lambda>p. length (snd p) = length (snd (hd f))) f)"

definition valid_store :: "app_state \<Rightarrow> bool" where
  "valid_store w = (case csv_file w of None \<Rightarrow> True | Some f \<Rightarrow> valid_csv f)"

definition no_file :: app_state where
  "no_file = \<lparr>csv_file = None, reminders = None, parsed_reminder = JNull, api_enabled = True\<rparr>"

definition example_form :: form where
  "example_form =
     \<lparr>user_input = ''dentist friday 3pm, bring ID'', title = ''Dentist'',
      category = ''appointment'', date = ''2024-01-05'', time = ''15:00'', priority = ''High'',
      notes = ''bring ID'', created_at = ''2024-01-01T09:00:00''\<rparr>"

section \<open>Overdue reminders and the summary\<close>

text \<open>
  A calendar date is year, month and day; dates compare as Python compares them, by year,
  then month, then day.  A \<^verbatim>\<open>datetime\<close> is a date and a time of day (in seconds);
  \<^verbatim>\<open>.date()\<close> keeps the date.
\<close>

type_synonym cal_date = "nat \<times> nat \<times> nat"

record datetime =
  date_of :: cal_date
  time_of :: nat

fun date_lt :: "cal_date \<Rightarrow> cal_date \<Rightarrow> bool" where
  "date_lt (y1, m1, d1) (y2, m2, d2) = (y1 < y2 \<or> (y1 = y2 \<and> (m1 < m2 \<or> (m1 = m2 \<and> d1 < d2))))"

text \<open>
  \<open>is_overdue\<close>.  The library's \<^verbatim>\<open>datetime.fromisoformat\<close> is the parameter \<open>fromisoformat\<close>
  (\<open>None\<close> where it raises) and \<^verbatim>\<open>datetime.now()\<close> the parameter \<open>now\<close>.  The bare
  \<^verbatim>\<open>except\<close> turns every failure of the parse into \<^verbatim>\<open>False\<close>.
\<close>

definition is_overdue :: "(string \<Rightarrow> datetime option) \<Rightarrow> datetime \<Rightarrow> cell \<Rightarrow> bool" where
  "is_overdue fromisoformat now date_str =
     (if \<not> truthy date_str \<or> date_str = StrV ''null'' \<or> isna date_str then False
      else
        (case fromisoformat (py_str date_str) of
           None \<Rightarrow> False
         | Some reminder_date \<Rightarrow> date_lt (date_of reminder_date) (date_of now)))"

text \<open>
  The plain form \<^verbatim>\<open>YYYY-MM-DD\<close>, which every version of \<^verbatim>\<open>fromisoformat\<close> reads: ten
  characters, a year from 1 on, a month and a day that exist.
\<close>

definition leap :: "nat \<Rightarrow> bool" where
  "leap y = (y mod 4 = 0 \<and> (y mod 100 \<noteq> 0 \<or> y mod 400 = 0))"

definition days_in_month :: "nat \<Rightarrow> nat \<Rightarrow> nat" where
  "days_in_month y m =
     (if m = 2 then (if leap y then 29 else 28)
      else if m = 4 \<or> m = 6 \<or> m = 9 \<or> m = 11 then 30 else 31)"

definition iso_date :: "string \<Rightarrow> datetime option" where
  "iso_date s =
     (if length s = 10 \<and> s ! 4 = CHR ''-'' \<and> s ! 7 = CHR ''-'' then
        (case (parse_nat (take 4 s), parse_nat (take 2 (drop 5 s)), parse_nat (drop 8 s)) of
           (Some y, Some m, Some d) \<Rightarrow>
             if 1 \<le> y \<and> 1 \<le> m \<and> m \<le> 12 \<and> 1 \<le> d \<and> d \<le> days_in_month y m
             then Some \<lparr>date_of = (y, m, d), time_of = 0\<rparr> else None
         | _ \<Rightarrow> None)
      else None)"

text \<open>The four metrics under \<^verbatim>\<open>Summary\<close>, computed from the frame loaded for the dashboard.\<close>

record summary =
  total :: nat
  pending :: nat
  completed :: nat
  overdue :: nat

definition summary_metrics ::
  "(string \<Rightarrow> datetime option) \<Rightarrow> datetime \<Rightarrow> frame \<Rightarrow> error + summary" where
  "summary_metrics fromisoformat now rs =
     (case map_of rs ''status'' of
        None \<Rightarrow> Inl (KeyError ''status'')
      | Some sts \<Rightarrow>
          (case map_of rs ''date'' of
             None \<Rightarrow> Inl (KeyError ''date'')
           | Some ds \<Rightarrow>
               Inr \<lparr>total = len rs,
                    pending = length (filter (\<lambda>s. py_eq s (StrV ''pending'')) sts),
                    completed = length (filter (\<lambda>s. py_eq s (StrV ''completed'')) sts),
                    overdue = length (filter (\<lambda>(d, s). is_overdue fromisoformat now d
                                \<and> s = StrV ''pending'') (zip ds sts))\<rparr>))"

section \<open>The dashboard's order\<close>

text \<open>
  \<^verbatim>\<open>pd.to_datetime(..., errors="coerce")\<close> is the parameter \<open>to_datetime\<close>: it gives each
  value of the date column a timestamp (an integer) or \<^verbatim>\<open>NaT\<close> (\<open>None\<close>).  The sort of
  numpy behind \<^verbatim>\<open>sort_values\<close> (\<^verbatim>\<open>kind="quicksort"\<close>, which need not be stable) is the
  parameter \<open>argsort\<close>: the positions of a list in an ascending order of its values.

  \<open>nargsort\<close> is what pandas does with \<^verbatim>\<open>na_position="last"\<close>: it sorts the positions of
  the present values and appends the positions of the missing ones as they stand.
\<close>

definition nargsort :: "(int list \<Rightarrow> nat list) \<Rightarrow> int option list \<Rightarrow> nat list" where
  "nargsort argsort items =
     (let idx = [0..<length items];
          non_nan_idx = filter (\<lambda>i. items ! i \<noteq> None) idx;
          nan_idx = filter (\<lambda>i. items ! i = None) idx;
          non_nans = map (\<lambda>i. the (items ! i)) non_nan_idx
      in map (\<lambda>j. non_nan_idx ! j) (argsort non_nans) @ nan_idx)"

text \<open>\<^verbatim>\<open>take\<close>: the rows at the given positions, in that order.\<close>

definition take_rows :: "frame \<Rightarrow> nat list \<Rightarrow> frame" where
  "take_rows fr indexer = map (\<lambda>(c, vs). (c, map (\<lambda>i. vs ! i) indexer)) fr"

text \<open>
  The frame the dashboard lists.  The column \<^verbatim>\<open>date_sort\<close> is added for the sort and dropped
  after it, so only the order of the rows is left of it.
\<close>

definition reminders_sorted ::
  "(cell list \<Rightarrow> int option list) \<Rightarrow> (int list \<Rightarrow> nat list) \<Rightarrow> frame \<Rightarrow> error + frame" where
  "reminders_sorted to_datetime argsort rs =
     (case map_of rs ''date'' of
        None \<Rightarrow> Inl (KeyError ''date'')
      | Some ds \<Rightarrow>
          let date_sort = to_datetime ds;
              indexer = nargsort argsort date_sort
          in Inr (filter (\<lambda>p. fst p \<noteq> ''date_sort'') (take_rows rs indexer)))"

text \<open>
  One sort and one date reader to run the above on: the positions in the order of a stable
  insertion sort, and the reading of plain \<^verbatim>\<open>YYYY-MM-DD\<close> texts, numbered so that later dates
  have larger numbers.
\<close>

definition stable_argsort :: "int list \<Rightarrow> nat list" where
  "stable_argsort xs = map snd (sort_key fst (zip xs [0..<length xs]))"

definition day_number :: "cell \<Rightarrow> int option" where
  "day_number v =
     (case v of
        StrV s \<Rightarrow>
          (case iso_date s of
             None \<Rightarrow> None
           | Some dt \<Rightarrow> (case date_of dt of (y, m, d) \<Rightarrow> Some (int y * 10000 + int m * 100 + int d)))
      | _ \<Rightarrow> None)"

section \<open>Predicates used in the proofs\<close>

definition digit_only :: "string \<Rightarrow> bool" where
  "digit_only s = list_all (\<lambda>c. digit_val c \<noteq> None) s"

definition numeric_col :: "cell list \<Rightarrow> bool" where
  "numeric_col vs = (\<forall>v \<in> set vs. v = NaN \<or> (\<exists>i. v = IntV i))"

definition text_col :: "cell list \<Rightarrow> bool" where
  "text_col vs = ((\<forall>v \<in> set vs. v = NaN \<or> (\<exists>s. v = StrV s \<and> \<not> is_na s))
     \<and> (\<exists>s. StrV s \<in> set vs \<and> parse_int s = None))"

definition csv_stable :: "cell list \<Rightarrow> bool" where
  "csv_stable vs = (numeric_col vs \<or> text_col vs)"

definition normal :: "frame \<Rightarrow> bool" where
  "normal fr = (\<forall>p \<in> set fr. csv_stable (snd p))"

definition uniform :: "frame \<Rightarrow> nat \<Rightarrow> bool" where
  "uniform fr n = (\<forall>p \<in> set fr. length (snd p) = n)"

definition enum_statuses :: "cell list \<Rightarrow> bool" where
  "enum_statuses vs = (\<forall>s \<in> set vs. s = StrV ''pending'' \<or> s = StrV ''completed'')"

definition enum_store :: "app_state \<Rightarrow> bool" where
  "enum_store w = (valid_store w \<and> enum_statuses (column w ''status''))"


definition ids_upto :: "nat \<Rightarrow> cell list" where
  "ids_upto k = map (\<lambda>i. IntV (int i + 1)) [0..<k]"

definition argsort_ok :: "(int list \<Rightarrow> nat list) \<Rightarrow> bool" where
  "argsort_ok argsort = (\<forall>xs. distinct (argsort xs) \<and> set (argsort xs) = {0..<length xs}
      \<and> sorted (map (\<lambda>j. xs ! j) (argsort xs)))"


section \<open>Concrete inputs\<close>

text \<open>A store of two reminders, as the application leaves it: the first pending, the second completed.\<close>

definition example_store :: app_state where
  "example_store =
     \<lparr>csv_file = Some
        [(''reminder_id'', [''1'', ''2'']),
         (''raw_input'', [''dentist friday 3pm'', ''pay rent'']),
         (''title'', [''Dentist'', ''Pay rent'']),
         (''category'', [''appointment'', ''task'']),
         (''date'', [''2024-01-05'', '''']),
         (''time'', [''15:00'', '''']),
         (''priority'', [''High'', ''Medium'']),
         (''notes'', ['''', '''']),
         (''status'', [''pending'', ''completed'']),
         (''created_at'', [''2024-01-01T09:00:00'', ''2024-01-02T10:30:00''])],
      reminders = None, parsed_reminder = JNull, api_enabled = True\<rparr>"

text \<open>A moment on 10 January 2024, half past nine in the morning.\<close>

definition now1 :: datetime where
  "now1 = \<lparr>date_of = (2024, 1, 10), time_of = 34200\<rparr>"

text \<open>
  An endpoint and a decoder to run the parse on.  The endpoint answers one input with a
  fenced JSON object that has no confidence, another with prose, and fails on the rest; the
  decoder knows that one object.
\<close>

definition example_json :: string where
  \<open>example_json = ''{"title": "Dentist", "priority": "High"}''\<close>

definition example_draft :: json where
  "example_draft = JObj [(''title'', JStr ''Dentist''), (''priority'', JStr ''High'')]"

definition example_loads :: "string \<Rightarrow> json option" where
  "example_loads s = (if s = example_json then Some example_draft else None)"

definition example_generate :: "string \<Rightarrow> string option" where
  "example_generate u =
     (if u = ''dentist friday 3pm'' then Some (''```json'' @ [CHR 0x0A] @ example_json @ [CHR 0x0A] @ ''```'')
      else if u = ''???'' then Some ''I could not understand that.''
      else None)"

text \<open>A store of four pending reminders, two of them without a date that can be read.\<close>

definition dated_store :: app_state where
  "dated_store =
     \<lparr>csv_file = Some
        [(''reminder_id'', [''1'', ''2'', ''3'', ''4'']),
         (''raw_input'', [''tax return'', ''call mum'', ''dentist'', ''book flights'']),
         (''title'', [''Tax return'', ''Call mum'', ''Dentist'', ''Book flights'']),
         (''category'', [''task'', ''follow-up'', ''appointment'', ''task'']),
         (''date'', [''2024-03-01'', '''', ''2024-01-05'', ''soon'']),
         (''time'', ['''', '''', ''15:00'', '''']),
         (''priority'', [''High'', ''Low'', ''High'', ''Medium'']),
         (''notes'', ['''', '''', '''', '''']),
         (''status'', [''pending'', ''pending'', ''pending'', ''pending'']),
         (''created_at'', [''2024-01-01T09:00:00'', ''2024-01-01T09:05:00'',
                          ''2024-01-02T10:30:00'', ''2024-01-03T08:00:00''])],
      reminders = None, parsed_reminder = JNull, api_enabled = True\<rparr>"


text \<open>A store of two reminders whose second status is not one of the two the application writes.\<close>

definition done_store :: app_state where
  "done_store =
     \<lparr>csv_file = Some
        [(''reminder_id'', [''1'', ''2'']),
         (''raw_input'', [''dentist friday 3pm'', ''pay rent'']),
         (''title'', [''Dentist'', ''Pay rent'']),
         (''category'', [''appointment'', ''task'']),
         (''date'', [''2024-01-05'', '''']),
         (''time'', [''15:00'', '''']),
         (''priority'', [''High'', ''Medium'']),
         (''notes'', ['''', '''']),
         (''status'', [''pending'', ''done'']),
         (''created_at'', [''2024-01-01T09:00:00'', ''2024-01-02T10:30:00''])],
      reminders = None, parsed_reminder = JNull, api_enabled = True\<rparr>"


section \<open>Lemmas\<close>

subsection \<open>Integers and their decimal text\<close>

lemma digit_val_digit_char: "d < 10 \<Longrightarrow> digit_val (digit_char d) = Some d"
proof -
  assume "d < 10"
  then have "d = 0 \<or> d = 1 \<or> d = 2 \<or> d = 3 \<or> d = 4 \<or> d = 5 \<or> d = 6 \<or> d = 7 \<or> d = 8 \<or> d = 9"
    by arith
  then show ?thesis
    by (auto simp: digit_val_def digit_char_def)
qed

lemma parse_nat_acc_snoc:
  "parse_nat_acc a (cs @ [c]) =
     (case parse_nat_acc a cs of None \<Rightarrow> None
      | Some m \<Rightarrow> (case digit_val c of None \<Rightarrow> None | Some d \<Rightarrow> Some (10 * m + d)))"
  by (induction cs arbitrary: a) (auto split: option.splits)

lemma digits_nonempty: "digits n \<noteq> []"
  by (subst digits.simps) simp

lemma parse_nat_acc_digits: "parse_nat_acc 0 (digits n) = Some n"
proof (induction n rule: digits.induct)
  case (1 n)
  show ?case
  proof (cases "n < 10")
    case True
    then show ?thesis
      by (subst digits.simps) (simp add: digit_val_digit_char)
  next
    case False
    with 1 have "parse_nat_acc 0 (digits (n div 10)) = Some (n div 10)" by simp
    with False show ?thesis
      by (subst digits.simps) (simp add: parse_nat_acc_snoc digit_val_digit_char)
  qed
qed

lemma parse_nat_digits: "parse_nat (digits n) = Some n"
  by (simp add: parse_nat_def digits_nonempty parse_nat_acc_digits)

lemma digit_char_not_sign: "d < 10 \<Longrightarrow> digit_char d \<noteq> CHR ''-'' \<and> digit_char d \<noteq> CHR ''+''"
proof -
  assume "d < 10"
  then have "d = 0 \<or> d = 1 \<or> d = 2 \<or> d = 3 \<or> d = 4 \<or> d = 5 \<or> d = 6 \<or> d = 7 \<or> d = 8 \<or> d = 9"
    by arith
  then show ?thesis
    by (auto simp: digit_char_def)
qed

lemma digit_only_digits: "digit_only (digits n)"
proof (induction n rule: digits.induct)
  case (1 n)
  show ?case
  proof (cases "n < 10")
    case True
    then show ?thesis
      by (subst digits.simps) (simp add: digit_only_def digit_val_digit_char)
  next
    case False
    with 1 have "digit_only (digits (n div 10))" by simp
    with False show ?thesis
      by (subst digits.simps) (simp add: digit_only_def digit_val_digit_char)
  qed
qed

lemma hd_digits: "digits n = c # cs \<Longrightarrow> c \<noteq> CHR ''-'' \<and> c \<noteq> CHR ''+''"
  using digit_only_digits [of n] by (auto simp: digit_only_def digit_val_def split: if_splits)

lemma parse_int_show_int: "parse_int (show_int i) = Some i"
proof (cases "i < 0")
  case True
  then show ?thesis by (simp add: parse_int_def show_int_def parse_nat_digits)
next
  case False
  obtain c cs where d: "digits (nat i) = c # cs"
    using digits_nonempty [of "nat i"] by (cases "digits (nat i)") auto
  from hd_digits [OF d] False show ?thesis
    using parse_nat_digits [of "nat i"] by (simp add: parse_int_def show_int_def d)
qed

lemma is_na_chars: "is_na s \<Longrightarrow> s = [] \<or> \<not> digit_only (if hd s = CHR ''-'' then tl s else s)"
  unfolding is_na_def na_values_def digit_only_def digit_val_def by auto

lemma show_int_not_na: "\<not> is_na (show_int i)"
proof
  assume "is_na (show_int i)"
  from is_na_chars [OF this] show False
    using digit_only_digits [of "nat i"] digit_only_digits [of "nat (- i)"] digits_nonempty hd_digits
    by (auto simp: show_int_def split: if_splits) (metis list.exhaust_sel hd_digits)+
qed

subsection \<open>Reading back what was written\<close>

lemma is_na_empty: "is_na []"
  by (simp add: is_na_def na_values_def)

lemma is_na_field:
  "is_na (cell_to_field v) = (case v of StrV s \<Rightarrow> is_na s | IntV i \<Rightarrow> False | _ \<Rightarrow> True)"
  by (cases v) (simp_all add: is_na_empty show_int_not_na)

lemma infer_column_length [simp]: "length (infer_column fs) = length fs"
  by (simp add: infer_column_def Let_def)

lemma infer_column_stable: "csv_stable (infer_column fs)"
proof (cases "filter (\<lambda>f. \<not> is_na f) fs \<noteq> [] \<and> list_all (\<lambda>f. parse_int f \<noteq> None) (filter (\<lambda>f. \<not> is_na f) fs)")
  case True
  then have "numeric_col (infer_column fs)"
    by (auto simp: infer_column_def numeric_col_def)
  then show ?thesis by (simp add: csv_stable_def)
next
  case False
  then have eq: "infer_column fs = map (\<lambda>f. if is_na f then NaN else StrV f) fs"
    by (auto simp: infer_column_def Let_def)
  show ?thesis
  proof (cases "filter (\<lambda>f. \<not> is_na f) fs = []")
    case True
    then have "\<forall>f \<in> set fs. is_na f" by (auto simp: filter_empty_conv)
    then have "numeric_col (infer_column fs)"
      by (auto simp: eq numeric_col_def)
    then show ?thesis by (simp add: csv_stable_def)
  next
    case nonempty: False
    with False obtain f where f: "f \<in> set fs" "\<not> is_na f" "parse_int f = None"
      by (auto simp: list_all_iff)
    then have "StrV f \<in> set (infer_column fs)"
      by (force simp: eq)
    with f have "text_col (infer_column fs)"
      by (auto simp: eq text_col_def)
    then show ?thesis by (simp add: csv_stable_def)
  qed
qed

lemma numeric_roundtrip:
  assumes "numeric_col vs"
  shows "infer_column (map cell_to_field vs) = vs"
proof -
  have na: "is_na (cell_to_field v) = (v = NaN)" if "v \<in> set vs" for v
    using assms that by (auto simp: numeric_col_def is_na_field)
  have pi: "parse_int (cell_to_field v) \<noteq> None" if "v \<in> set vs" "v \<noteq> NaN" for v
    using assms that by (auto simp: numeric_col_def parse_int_show_int)
  have restore: "(if is_na (cell_to_field v) then NaN else IntV (the (parse_int (cell_to_field v)))) = v"
    if "v \<in> set vs" for v
    using assms that na [OF that] by (auto simp: numeric_col_def parse_int_show_int)
  show ?thesis
  proof (cases "\<forall>v \<in> set vs. v = NaN")
    case True
    then have "filter (\<lambda>f. \<not> is_na f) (map cell_to_field vs) = []"
      by (auto simp: filter_empty_conv is_na_field)
    moreover have "map ((\<lambda>f. if is_na f then NaN else StrV f) \<circ> cell_to_field) vs = vs"
      using True by (intro map_idI) (auto simp: is_na_field)
    ultimately show ?thesis
      by (simp add: infer_column_def)
  next
    case False
    then have "filter (\<lambda>f. \<not> is_na f) (map cell_to_field vs) \<noteq> []"
      using na by (auto simp: filter_empty_conv)
    moreover have "list_all (\<lambda>f. parse_int f \<noteq> None) (filter (\<lambda>f. \<not> is_na f) (map cell_to_field vs))"
      using na pi by (auto simp: list_all_iff)
    moreover have "map ((\<lambda>f. if is_na f then NaN else IntV (the (parse_int f))) \<circ> cell_to_field) vs = vs"
      using restore by (intro map_idI) auto
    ultimately show ?thesis
      by (simp add: infer_column_def)
  qed
qed

lemma text_roundtrip:
  assumes "text_col vs"
  shows "infer_column (map cell_to_field vs) = vs"
proof -
  from assms obtain s where s: "StrV s \<in> set vs" "parse_int s = None" "\<not> is_na s"
    by (auto simp: text_col_def)
  have na: "is_na (cell_to_field v) = (v = NaN)" if "v \<in> set vs" for v
    using assms that by (auto simp: text_col_def is_na_field)
  from s have "s \<in> set (filter (\<lambda>f. \<not> is_na f) (map cell_to_field vs))"
    by force
  with s have "\<not> list_all (\<lambda>f. parse_int f \<noteq> None) (filter (\<lambda>f. \<not> is_na f) (map cell_to_field vs))"
    unfolding list_all_iff by blast
  moreover have "map ((\<lambda>f. if is_na f then NaN else StrV f) \<circ> cell_to_field) vs = vs"
    using assms na by (intro map_idI) (auto simp: text_col_def)
  ultimately show ?thesis
    by (simp add: infer_column_def)
qed

lemma stable_roundtrip: "csv_stable vs \<Longrightarrow> infer_column (map cell_to_field vs) = vs"
  by (auto simp: csv_stable_def numeric_roundtrip text_roundtrip)

lemma read_csv_normal: "read_csv f = Inr fr \<Longrightarrow> normal fr"
  by (auto simp: read_csv_def normal_def infer_column_stable split: if_splits)

lemma read_to_csv: "normal fr \<Longrightarrow> fr \<noteq> [] \<Longrightarrow> read_csv (to_csv fr) = Inr fr"
  by (auto simp: read_csv_def to_csv_def normal_def stable_roundtrip intro!: map_idI)

subsection \<open>Stores with the fixed schema\<close>

lemma schema_distinct: "distinct schema"
  by (simp add: schema_def)

lemma schema_nonempty: "schema \<noteq> []"
  by (simp add: schema_def)

lemma status_in_schema: "''status'' \<in> set schema"
  by (simp add: schema_def)

lemma id_in_schema: "''reminder_id'' \<in> set schema"
  by (simp add: schema_def)

lemma numeric_col_Nil: "csv_stable []"
  by (simp add: csv_stable_def numeric_col_def)

lemma load_valid:
  assumes "valid_store w"
  obtains rs n where "load_reminders w = Inr rs" "map fst rs = schema" "normal rs" "uniform rs n"
proof (cases "csv_file w")
  case None
  let ?rs = "map (\<lambda>c. (c, [])) schema :: frame"
  have "load_reminders w = Inr ?rs" by (simp add: load_reminders_def None)
  moreover have "map fst ?rs = schema" by (simp add: comp_def)
  moreover have "normal ?rs" by (auto simp: normal_def numeric_col_Nil)
  moreover have "uniform ?rs 0" by (auto simp: uniform_def)
  ultimately show ?thesis using that by blast
next
  case (Some f)
  with assms have v: "valid_csv f" by (simp add: valid_store_def)
  then have ne: "f \<noteq> []" using schema_nonempty by (auto simp: valid_csv_def)
  let ?rs = "map (\<lambda>(c, fs). (c, infer_column fs)) f"
  have "load_reminders w = Inr ?rs" using ne by (simp add: load_reminders_def Some read_csv_def)
  moreover have "map fst ?rs = schema" using v by (simp add: valid_csv_def comp_def case_prod_unfold)
  moreover have "normal ?rs" by (auto simp: normal_def infer_column_stable)
  moreover have "uniform ?rs (length (snd (hd f)))"
    using v by (auto simp: uniform_def valid_csv_def list_all_iff)
  ultimately show ?thesis using that by blast
qed

lemma map_of_schema:
  assumes "map fst rs = schema" "c \<in> set schema"
  obtains vs where "map_of rs c = Some vs" "(c, vs) \<in> set rs"
proof -
  from assms have "c \<in> fst ` set rs" by (metis set_map)
  then obtain vs where "map_of rs c = Some vs"
    by (metis domD dom_map_of_conv_image_fst)
  then show ?thesis using that map_of_SomeD by fastforce
qed

lemma map2_all_false:
  "length msk = length vs \<Longrightarrow> \<forall>m \<in> set msk. \<not> m \<Longrightarrow> map2 (\<lambda>m x. if m then v else x) msk vs = vs"
  by (induction msk vs rule: list_induct2) auto

lemma uniformD: "uniform fr n \<Longrightarrow> (c, vs) \<in> set fr \<Longrightarrow> length vs = n"
  unfolding uniform_def by force

lemma loc_set_unmatched:
  assumes "c \<in> set (map fst fr)" "uniform fr (length msk)" "\<forall>m \<in> set msk. \<not> m"
  shows "loc_set fr msk c v = fr"
proof -
  have "(\<lambda>(n, vs). if n = c then (n, map2 (\<lambda>m x. if m then v else x) msk vs) else (n, vs)) p = p"
    if "p \<in> set fr" for p
  proof (cases p)
    case (Pair n vs)
    with that assms(2) have "length msk = length vs" by (simp add: uniformD)
    from map2_all_false [OF this assms(3)] Pair show ?thesis by simp
  qed
  then have "map (\<lambda>(n, vs). if n = c then (n, map2 (\<lambda>m x. if m then v else x) msk vs) else (n, vs)) fr = fr"
    by (intro map_idI)
  with assms(1) show ?thesis by (simp add: loc_set_def)
qed

subsection \<open>Setting a status\<close>

lemma map2_set_twice:
  "map2 (\<lambda>m x. if m then v2 else x) msk (map2 (\<lambda>m x. if m then v1 else x) msk vs)
     = map2 (\<lambda>m x. if m then v2 else x) msk (vs :: cell list)"
proof (induction msk arbitrary: vs)
  case Nil
  then show ?case by simp
next
  case (Cons m ms)
  then show ?case by (cases vs) simp_all
qed

lemma map2_set_same:
  "length msk = length vs \<Longrightarrow> \<forall>i < length vs. msk ! i \<longrightarrow> vs ! i = v \<Longrightarrow>
     map2 (\<lambda>m x. if m then v else x) msk vs = vs"
proof (induction msk vs rule: list_induct2)
  case Nil
  then show ?case by simp
next
  case (Cons m ms x xs)
  from Cons.prems have "\<forall>i < length xs. ms ! i \<longrightarrow> xs ! i = v" by force
  with Cons.IH have "map2 (\<lambda>m x. if m then v else x) ms xs = xs" by simp
  moreover from Cons.prems have "m \<longrightarrow> x = v" by force
  ultimately show ?case by simp
qed

lemma map_of_map_keyed:
  "map_of (map (\<lambda>(n, vs). (n, g n vs)) fr) k = map_option (g k) (map_of fr k)"
  by (induction fr) auto

lemma loc_set_alt:
  "c \<in> set (map fst fr) \<Longrightarrow>
     loc_set fr msk c v = map (\<lambda>(n, vs). (n, if n = c then map2 (\<lambda>m x. if m then v else x) msk vs else vs)) fr"
  by (simp add: loc_set_def case_prod_unfold if_distrib cong: if_cong)

lemma loc_set_map_of:
  assumes "c \<in> set (map fst fr)"
  shows "map_of (loc_set fr msk c v) k =
     (if k = c then map_option (map2 (\<lambda>m x. if m then v else x) msk) (map_of fr k) else map_of fr k)"
proof -
  have "map_of (loc_set fr msk c v) k
      = map_option (\<lambda>vs. if k = c then map2 (\<lambda>m x. if m then v else x) msk vs else vs) (map_of fr k)"
    unfolding loc_set_alt [OF assms] by (rule map_of_map_keyed)
  then show ?thesis by (simp add: option.map_ident)
qed

lemma loc_set_names2: "c \<in> set (map fst fr) \<Longrightarrow> map fst (loc_set fr msk c v) = map fst fr"
  by (simp add: loc_set_alt case_prod_unfold comp_def)

lemma loc_set_twice:
  assumes "c \<in> set (map fst fr)"
  shows "loc_set (loc_set fr msk c v1) msk c v2 = loc_set fr msk c v2"
proof -
  have c': "c \<in> set (map fst (loc_set fr msk c v1))" using assms by (simp add: loc_set_names2)
  have "map (\<lambda>(n, vs). (n, if n = c then map2 (\<lambda>m x. if m then v2 else x) msk vs else vs))
          (map (\<lambda>(n, vs). (n, if n = c then map2 (\<lambda>m x. if m then v1 else x) msk vs else vs)) fr)
      = map (\<lambda>(n, vs). (n, if n = c then map2 (\<lambda>m x. if m then v2 else x) msk vs else vs)) fr"
    by (induction fr) (auto simp: map2_set_twice)
  then show ?thesis
    unfolding loc_set_alt [OF c'] unfolding loc_set_alt [OF assms] .
qed

lemma loc_set_same:
  assumes "c \<in> set (map fst fr)" "distinct (map fst fr)" "uniform fr (length msk)"
    and "map_of fr c = Some vs" "\<forall>i < length vs. msk ! i \<longrightarrow> vs ! i = v"
  shows "loc_set fr msk c v = fr"
proof -
  have "(\<lambda>(n, xs). (n, if n = c then map2 (\<lambda>m x. if m then v else x) msk xs else xs)) p = p"
    if "p \<in> set fr" for p
  proof (cases p)
    case (Pair n xs)
    show ?thesis
    proof (cases "n = c")
      case True
      with that Pair assms(2,4) have "xs = vs" by (metis map_of_eq_Some_iff option.inject)
      moreover from that Pair assms(3) have "length msk = length xs" by (simp add: uniformD)
      ultimately have "map2 (\<lambda>m x. if m then v else x) msk xs = xs"
        using assms(5) by (simp add: map2_set_same)
      with Pair show ?thesis by simp
    next
      case False
      with Pair show ?thesis by simp
    qed
  qed
  then show ?thesis unfolding loc_set_alt [OF assms(1)] by (intro map_idI)
qed

lemma loc_set_uniform:
  assumes "c \<in> set (map fst fr)" "uniform fr (length msk)"
  shows "uniform (loc_set fr msk c v) (length msk)"
  unfolding loc_set_alt [OF assms(1)] using assms(2) by (auto simp: uniform_def)

lemma loc_set_normal:
  assumes "c \<in> set (map fst fr)" "normal fr"
    and "\<And>vs. (c, vs) \<in> set fr \<Longrightarrow> csv_stable (map2 (\<lambda>m x. if m then v else x) msk vs)"
  shows "normal (loc_set fr msk c v)"
  unfolding loc_set_alt [OF assms(1)] using assms(2,3) by (fastforce simp: normal_def)

lemma row_map_of: "map_of (row fr i) c = map_option (\<lambda>vs. vs ! i) (map_of fr c)"
  unfolding row_def by (rule map_of_map_keyed)

lemma len_uniform: "uniform fr n \<Longrightarrow> fr \<noteq> [] \<Longrightarrow> len fr = n"
  by (cases fr) (auto simp: len_def uniform_def)

lemma reload:
  assumes "normal rs'" "rs' \<noteq> []"
  shows "load_reminders (w\<lparr>csv_file := Some (to_csv rs'), reminders := None\<rparr>) = Inr rs'"
  using read_to_csv [OF assms] by (simp add: load_reminders_def)

lemma valid_after:
  assumes "map fst rs' = schema" "uniform rs' n"
  shows "valid_store (w\<lparr>csv_file := Some (to_csv rs'), reminders := None\<rparr>)"
proof -
  have "map fst (to_csv rs') = schema"
    using assms(1) by (simp add: to_csv_def case_prod_unfold comp_def)
  moreover have "length (snd p) = n" if "p \<in> set (to_csv rs')" for p
    using that assms(2) by (auto simp: to_csv_def uniform_def)
  moreover have "hd (to_csv rs') \<in> set (to_csv rs')"
    using assms(1) schema_nonempty by (intro hd_in_set) (auto simp: to_csv_def)
  ultimately show ?thesis
    by (simp add: valid_store_def valid_csv_def list_all_iff)
qed

lemma update_eq:
  assumes "load_reminders w = Inr rs" "map_of rs ''reminder_id'' = Some ids"
  shows "update_reminder_status w rid st =
       Inr (w\<lparr>csv_file := Some (to_csv (loc_set rs (map (\<lambda>v. py_eq v rid) ids) ''status'' st)),
              reminders := None\<rparr>)"
  by (simp add: update_reminder_status_def assms Let_def)

lemma update_loaded:
  assumes "valid_store w"
  obtains rs n ids sts where "load_reminders w = Inr rs" "map fst rs = schema" "normal rs"
    "uniform rs n" "map_of rs ''reminder_id'' = Some ids" "length ids = n"
    "map_of rs ''status'' = Some sts" "length sts = n" "(''status'', sts) \<in> set rs"
proof -
  from assms obtain rs n where rs: "load_reminders w = Inr rs" "map fst rs = schema"
    "normal rs" "uniform rs n" by (rule load_valid)
  from rs(2) id_in_schema obtain ids where ids: "map_of rs ''reminder_id'' = Some ids"
    "(''reminder_id'', ids) \<in> set rs" by (rule map_of_schema)
  from rs(2) status_in_schema obtain sts where sts: "map_of rs ''status'' = Some sts"
    "(''status'', sts) \<in> set rs" by (rule map_of_schema)
  from ids(2) sts(2) rs(4) have n: "length ids = n" "length sts = n" by (simp_all add: uniformD)
  with rs ids(1) sts show ?thesis using that by blast
qed

lemma map2_set_subset:
  "set (map2 (\<lambda>m x. if m then v else x) msk vs) \<subseteq> insert v (set vs)"
proof (induction msk arbitrary: vs)
  case Nil
  then show ?case by simp
next
  case (Cons m ms)
  then show ?case by (cases vs) auto
qed

lemma map2_set_nth:
  "length msk = length vs \<Longrightarrow> i < length vs \<Longrightarrow>
     map2 (\<lambda>m x. if m then v else x) msk vs ! i = (if msk ! i then v else vs ! i)"
  by simp

lemma stable_set:
  assumes "csv_stable sts" "length msk = length sts" "\<not> is_na s" "parse_int s = None"
    and "(\<forall>i. IntV i \<notin> set sts) \<or> (\<forall>m \<in> set msk. \<not> m)"
  shows "csv_stable (map2 (\<lambda>m x. if m then StrV s else x) msk sts)"
proof (cases "\<forall>m \<in> set msk. \<not> m")
  case True
  with assms(1,2) show ?thesis by (simp add: map2_all_false)
next
  case False
  with assms(5) have noint: "\<forall>i. IntV i \<notin> set sts" by blast
  let ?new = "map2 (\<lambda>m x. if m then StrV s else x) msk sts"
  have old: "v = NaN \<or> (\<exists>t. v = StrV t \<and> \<not> is_na t)" if "v \<in> set sts" for v
    using assms(1) noint that unfolding csv_stable_def numeric_col_def text_col_def by blast
  have "v = NaN \<or> (\<exists>t. v = StrV t \<and> \<not> is_na t)" if "v \<in> set ?new" for v
  proof -
    from that map2_set_subset have "v = StrV s \<or> v \<in> set sts" by fastforce
    with old assms(3) show ?thesis by blast
  qed
  moreover have "StrV s \<in> set ?new"
  proof -
    from False obtain i where i: "i < length msk" "msk ! i" by (auto simp: in_set_conv_nth)
    with assms(2) have "?new ! i = StrV s" by simp
    moreover from i assms(2) have "i < length ?new" by simp
    ultimately show ?thesis by (metis nth_mem)
  qed
  ultimately have "text_col ?new" using assms(4) unfolding text_col_def by blast
  then show ?thesis by (simp add: csv_stable_def)
qed

lemma pending_text: "\<not> is_na ''pending'' \<and> parse_int ''pending'' = None"
  by (simp add: is_na_def na_values_def parse_int_def parse_nat_def digit_val_def)

lemma completed_text: "\<not> is_na ''completed'' \<and> parse_int ''completed'' = None"
  by (simp add: is_na_def na_values_def parse_int_def parse_nat_def digit_val_def)

lemma text_col_no_int: "csv_stable sts \<Longrightarrow> StrV s \<in> set sts \<Longrightarrow> IntV i \<notin> set sts"
  unfolding csv_stable_def numeric_col_def text_col_def by blast


subsection \<open>Saving a row\<close>

lemma map_of_keys: "c \<in> set cs \<Longrightarrow> map_of (map (\<lambda>c. (c, g c)) cs) c = Some (g c)"
  by (induction cs) auto

lemma map_of_DataFrame: "map_of (DataFrame d) c = map_option (\<lambda>v. [v]) (map_of d c)"
  unfolding DataFrame_def by (induction d) auto

lemma len_DataFrame: "d \<noteq> [] \<Longrightarrow> len (DataFrame d) = 1"
  by (cases d) (auto simp: DataFrame_def len_def)

lemma map_of_to_csv: "map_of (to_csv fr) c = map_option (map cell_to_field) (map_of fr c)"
  unfolding to_csv_def by (induction fr) auto

lemma map_of_read: "map_of (map (\<lambda>(c, fs). (c, infer_column fs)) f) c = map_option infer_column (map_of f c)"
  by (induction f) auto

lemma column_csv:
  assumes "csv_file w = Some f" "f \<noteq> []" "map_of f c = Some fs"
  shows "column w c = infer_column fs"
  using assms by (simp add: column_def load_reminders_def read_csv_def map_of_read)

lemma concat_new_row:
  assumes "map fst rs = schema" "set (map fst d) \<subseteq> set schema" "d \<noteq> []"
  shows "concat_frames rs (DataFrame d)
     = map (\<lambda>c. (c, reindex_col rs c @ [case map_of d c of Some v \<Rightarrow> v | None \<Rightarrow> NaN])) schema"
proof -
  have "filter (\<lambda>c. c \<notin> set schema) (map fst (DataFrame d)) = []"
    using assms(2) by (auto simp: DataFrame_def filter_empty_conv case_prod_unfold)
  moreover have "reindex_col (DataFrame d) c = [case map_of d c of Some v \<Rightarrow> v | None \<Rightarrow> NaN]" for c
    by (simp add: reindex_col_def map_of_DataFrame len_DataFrame [OF assms(3)] split: option.splits)
  ultimately show ?thesis
    by (simp add: concat_frames_def assms(1))
qed

lemma save_step:
  assumes "valid_store w" "strip (title fm) \<noteq> []"
  obtains w' f where "save_button_handler w fm = Inr w'" "valid_store w'" "csv_file w' = Some f"
    "f \<noteq> []"
    "map_of f ''reminder_id'' = Some (map cell_to_field (column w ''reminder_id'')
        @ [show_int (int (length (column w ''reminder_id'')) + 1)])"
proof -
  from assms(1) obtain rs n ids where rs: "load_reminders w = Inr rs" "map fst rs = schema"
    "normal rs" "uniform rs n" and ids: "map_of rs ''reminder_id'' = Some ids" "length ids = n"
    by (rule update_loaded)
  have ne: "rs \<noteq> []" using rs(2) schema_nonempty by auto
  have ln: "len rs = n" using len_uniform [OF rs(4) ne] .
  have col: "column w ''reminder_id'' = ids" by (simp add: column_def rs(1) ids(1))
  let ?d = "[(''reminder_id'', IntV (int n + 1)),
             (''raw_input'', StrV (user_input fm)),
             (''title'', StrV (title fm)),
             (''category'', StrV (category fm)),
             (''date'', if strip (date fm) \<noteq> [] then StrV (date fm) else NoneV),
             (''time'', if strip (time fm) \<noteq> [] then StrV (time fm) else NoneV),
             (''priority'', StrV (priority fm)),
             (''status'', StrV ''pending''),
             (''created_at'', StrV (created_at fm))]"
  let ?rs' = "concat_frames rs (DataFrame ?d)"
  let ?w' = "w\<lparr>csv_file := Some (to_csv ?rs'), reminders := None, parsed_reminder := JNull\<rparr>"
  have keys: "set (map fst ?d) \<subseteq> set schema" by (simp add: schema_def)
  have rs': "?rs' = map (\<lambda>c. (c, reindex_col rs c @ [case map_of ?d c of Some v \<Rightarrow> v | None \<Rightarrow> NaN])) schema"
    using rs(2) keys by (rule concat_new_row) simp
  have names: "map fst ?rs' = schema" unfolding rs' by (simp add: comp_def)
  have "length (reindex_col rs c) = n" if "c \<in> set schema" for c
  proof -
    from rs(2) that obtain vs where "map_of rs c = Some vs" "(c, vs) \<in> set rs"
      by (rule map_of_schema)
    with rs(4) show ?thesis by (simp add: reindex_col_def uniformD)
  qed
  then have un: "uniform ?rs' (Suc n)" unfolding rs' by (auto simp: uniform_def)
  have saved: "save_button_handler w fm = Inr ?w'"
    using assms(2) by (simp add: save_button_handler_def save_reminder_to_csv_def rs(1) ln Let_def)
  have valid: "valid_store ?w'"
    using valid_after [OF names un, of w] by (simp add: valid_store_def)
  have "map_of ?rs' ''reminder_id'' = Some (ids @ [IntV (int n + 1)])"
    unfolding rs' by (simp add: map_of_keys [OF id_in_schema] reindex_col_def ids(1))
  then have field: "map_of (to_csv ?rs') ''reminder_id''
      = Some (map cell_to_field ids @ [show_int (int (length ids) + 1)])"
    by (simp add: map_of_to_csv ids(2))
  have nonempty: "to_csv ?rs' \<noteq> []"
    using names schema_nonempty by (auto simp: to_csv_def)
  show ?thesis
    using that [of ?w' "to_csv ?rs'"] saved valid field nonempty by (simp add: col)
qed

lemma ids_upto_Suc: "ids_upto (Suc k) = ids_upto k @ [IntV (int k + 1)]"
  by (simp add: ids_upto_def)

lemma ids_upto_numeric: "numeric_col (ids_upto k)"
  by (auto simp: ids_upto_def numeric_col_def)

lemma ids_upto_distinct: "distinct (ids_upto k)"
  by (simp add: ids_upto_def distinct_map inj_on_def)

lemma save_keeps_numbering:
  assumes "valid_store w" "column w ''reminder_id'' = ids_upto k" "strip (title fm) \<noteq> []"
  obtains w' where "save_button_handler w fm = Inr w'" "valid_store w'"
    "column w' ''reminder_id'' = ids_upto (Suc k)"
proof -
  from assms(1,3) obtain w' f where s: "save_button_handler w fm = Inr w'" "valid_store w'"
    "csv_file w' = Some f" "f \<noteq> []"
    "map_of f ''reminder_id'' = Some (map cell_to_field (column w ''reminder_id'')
        @ [show_int (int (length (column w ''reminder_id'')) + 1)])"
    by (rule save_step)
  have "length (ids_upto k) = k" by (simp add: ids_upto_def)
  then have "map cell_to_field (column w ''reminder_id'')
        @ [show_int (int (length (column w ''reminder_id'')) + 1)] = map cell_to_field (ids_upto (Suc k))"
    by (simp add: assms(2) ids_upto_Suc)
  with column_csv [OF s(3,4,5)] have "column w' ''reminder_id'' = ids_upto (Suc k)"
    by (simp add: numeric_roundtrip [OF ids_upto_numeric])
  with s(1,2) show ?thesis using that by blast
qed

lemma appends_numbering:
  assumes "valid_store w" "column w ''reminder_id'' = ids_upto k"
  shows "\<exists>k'. valid_store (appends w fms) \<and> column (appends w fms) ''reminder_id'' = ids_upto k'"
  using assms
proof (induction fms arbitrary: w k)
  case Nil
  then show ?case by auto
next
  case (Cons fm fms)
  show ?case
  proof (cases "strip (title fm) = []")
    case True
    then have "save_button_handler w fm = Inl TitleRequired" by (simp add: save_button_handler_def)
    then show ?thesis using Cons.IH [OF Cons.prems] by simp
  next
    case False
    with Cons.prems obtain w' where w': "save_button_handler w fm = Inr w'" "valid_store w'"
      "column w' ''reminder_id'' = ids_upto (Suc k)" by (rule save_keeps_numbering)
    from Cons.IH [OF w'(2,3)] w'(1) show ?thesis by simp
  qed
qed

lemma no_file_numbering:
  assumes "csv_file w = None"
  shows "valid_store w \<and> column w ''reminder_id'' = ids_upto 0"
  using assms by (simp add: valid_store_def column_def load_reminders_def ids_upto_def map_of_keys [OF id_in_schema])

subsection \<open>Overdue dates\<close>

lemma digits_0: "digits 0 = ''0''"
  by (subst digits.simps) (simp add: digit_char_def)

lemma py_str_short: "\<not> truthy v \<or> v = StrV ''null'' \<or> isna v \<Longrightarrow> length (py_str v) < 7"
proof (cases v)
  case NoneV
  then show ?thesis by simp
next
  case NaN
  then show ?thesis by simp
next
  case (IntV i)
  assume "\<not> truthy v \<or> v = StrV ''null'' \<or> isna v"
  with IntV have "i = 0" by simp
  with IntV show ?thesis by (simp add: show_int_def digits_0)
next
  case (StrV s)
  assume "\<not> truthy v \<or> v = StrV ''null'' \<or> isna v"
  with StrV have "s = [] \<or> s = ''null''" by simp
  with StrV show ?thesis by auto
qed

lemma date_lt_irrefl: "\<not> date_lt d d"
proof (cases d)
  case (fields y m dd)
  then show ?thesis by simp
qed

lemma date_lt_asym: "date_lt a b \<Longrightarrow> \<not> date_lt b a"
proof (cases a)
  case a: (fields y1 m1 d1)
  show "date_lt a b \<Longrightarrow> \<not> date_lt b a"
  proof (cases b)
    case b: (fields y2 m2 d2)
    show "date_lt a b \<Longrightarrow> \<not> date_lt b a" unfolding a b by (simp; linarith)
  qed
qed


lemma iso_date_short: "\<forall>s. length s < 7 \<longrightarrow> iso_date s = None"
  by (simp add: iso_date_def)


subsection \<open>The summary\<close>

lemma date_in_schema: "''date'' \<in> set schema"
  by (simp add: schema_def)

lemma py_eq_StrV: "py_eq s (StrV t) = (s = StrV t)"
  by (cases s) auto

lemma filter_zip_le:
  "length (filter (\<lambda>(d, s). Q d \<and> R s) (zip ds sts)) \<le> length (filter R sts)"
proof (induction sts arbitrary: ds)
  case Nil
  then show ?case by simp
next
  case (Cons s sts)
  show ?case
  proof (cases ds)
    case Nil
    then show ?thesis by simp
  next
    case (Cons d ds')
    with Cons.IH [of ds'] show ?thesis by simp
  qed
qed

lemma zip_as_indices:
  assumes "length ds = n" "length sts = n"
  shows "zip ds sts = map (\<lambda>i. (ds ! i, sts ! i)) [0..<n]"
  using assms by (intro nth_equalityI) simp_all

lemma filter_zip_indices:
  assumes "length ds = n" "length sts = n"
  shows "length (filter (\<lambda>(d, s). Q d \<and> R s) (zip ds sts))
       = length (filter (\<lambda>i. R (sts ! i) \<and> Q (ds ! i)) [0..<n])"
proof -
  have "filter (\<lambda>(d, s). Q d \<and> R s) (zip ds sts)
      = map (\<lambda>i. (ds ! i, sts ! i)) (filter (\<lambda>i. R (sts ! i) \<and> Q (ds ! i)) [0..<n])"
    unfolding zip_as_indices [OF assms] filter_map by (simp add: comp_def conj_commute)
  then show ?thesis by simp
qed


subsection \<open>The text handed to the decoder\<close>

lemma split_from_nonempty: "split_from sep acc s \<noteq> []"
proof (induction sep acc s rule: split_from.induct)
  case (1 sep acc s)
  then show ?case by (subst split_from.simps) auto
qed

lemma str_split_fence:
  assumes "startswith s sep" "sep \<noteq> []" "s \<noteq> []"
  shows "\<exists>b rest. str_split s sep = [] # b # rest"
proof -
  have "str_split s sep = [] # split_from sep [] (drop (length sep) s)"
    unfolding str_split_def using assms by (subst split_from.simps) simp
  moreover obtain b rest where "split_from sep [] (drop (length sep) s) = b # rest"
    using split_from_nonempty by (meson list.exhaust)
  ultimately show ?thesis by simp
qed

lemma extract_json_text_total: "\<exists>t. extract_json_text text = Some t"
proof (cases "startswith (strip text) ''```''")
  case True
  then have "strip text \<noteq> []" by (auto simp: startswith_def)
  with True obtain b rest where "str_split (strip text) ''```'' = [] # b # rest"
    using str_split_fence [of "strip text" "''```''"] by auto
  with True show ?thesis by (simp add: extract_json_text_def)
next
  case False
  then show ?thesis by (simp add: extract_json_text_def)
qed


subsection \<open>The dashboard's order\<close>

lemma map_const_replicate: "\<forall>x \<in> set xs. f x = c \<Longrightarrow> map f xs = replicate (length xs) c"
  by (induction xs) auto

lemma nargsort_distinct:
  assumes "argsort_ok argsort"
  shows "distinct (nargsort argsort keys) \<and> set (nargsort argsort keys) = {0..<length keys}"
proof -
  let ?n = "length keys"
  let ?nn = "filter (\<lambda>i. keys ! i \<noteq> None) [0..<?n]"
  let ?na = "filter (\<lambda>i. keys ! i = None) [0..<?n]"
  let ?vals = "map (\<lambda>i. the (keys ! i)) ?nn"
  let ?a = "argsort ?vals"
  from assms have a: "distinct ?a" "set ?a = {0..<length ?nn}"
    unfolding argsort_ok_def by (metis, metis length_map)
  have dnn: "distinct ?nn" by simp
  have inj: "inj_on (\<lambda>j. ?nn ! j) (set ?a)"
    unfolding a(2) using dnn by (intro inj_on_nth) auto
  have d1: "distinct (map (\<lambda>j. ?nn ! j) ?a)"
    using a(1) inj by (simp add: distinct_map)
  have s1: "set (map (\<lambda>j. ?nn ! j) ?a) = set ?nn"
  proof -
    have "set (map (\<lambda>j. ?nn ! j) ?a) = (\<lambda>j. ?nn ! j) ` {0..<length ?nn}" using a(2) by simp
    also have "\<dots> = set ?nn" by (metis nth_image take_all order_refl lessThan_atLeast0)
    finally show ?thesis .
  qed
  have disj: "set ?nn \<inter> set ?na = {}" by auto
  have cover: "set ?nn \<union> set ?na = {0..<?n}" by auto
  have "distinct (map (\<lambda>j. ?nn ! j) ?a @ ?na)"
    using d1 disj unfolding distinct_append s1 by simp
  moreover have "set (map (\<lambda>j. ?nn ! j) ?a @ ?na) = {0..<?n}"
    unfolding set_append s1 by (rule cover)
  ultimately show ?thesis by (simp add: nargsort_def Let_def)
qed

lemma nargsort_keys:
  assumes "argsort_ok argsort"
  shows "\<exists>ks z. sorted ks \<and> map (\<lambda>i. keys ! i) (nargsort argsort keys) = map Some ks @ replicate z None"
proof -
  let ?n = "length keys"
  let ?nn = "filter (\<lambda>i. keys ! i \<noteq> None) [0..<?n]"
  let ?na = "filter (\<lambda>i. keys ! i = None) [0..<?n]"
  let ?vals = "map (\<lambda>i. the (keys ! i)) ?nn"
  let ?a = "argsort ?vals"
  from assms have a: "set ?a = {0..<length ?nn}" "sorted (map (\<lambda>j. ?vals ! j) ?a)"
    unfolding argsort_ok_def by (metis length_map, metis)
  have "keys ! (?nn ! j) = Some (?vals ! j)" if "j \<in> set ?a" for j
  proof -
    from that a(1) have j: "j < length ?nn" by simp
    then have "?nn ! j \<in> set ?nn" by (rule nth_mem)
    then have "keys ! (?nn ! j) \<noteq> None" by simp
    with j show ?thesis by auto
  qed
  then have p1: "map (\<lambda>i. keys ! i) (map (\<lambda>j. ?nn ! j) ?a) = map Some (map (\<lambda>j. ?vals ! j) ?a)"
    by simp
  have p2: "map (\<lambda>i. keys ! i) ?na = replicate (length ?na) None"
    by (rule map_const_replicate) simp
  have "map (\<lambda>i. keys ! i) (nargsort argsort keys)
      = map Some (map (\<lambda>j. ?vals ! j) ?a) @ replicate (length ?na) None"
    unfolding nargsort_def Let_def map_append p1 p2 ..
  with a(2) show ?thesis by blast
qed

lemma nargsort_missing_order:
  assumes "argsort_ok argsort"
  shows "filter (\<lambda>i. keys ! i = None) (nargsort argsort keys)
       = filter (\<lambda>i. keys ! i = None) [0..<length keys]"
proof -
  let ?n = "length keys"
  let ?nn = "filter (\<lambda>i. keys ! i \<noteq> None) [0..<?n]"
  let ?na = "filter (\<lambda>i. keys ! i = None) [0..<?n]"
  let ?vals = "map (\<lambda>i. the (keys ! i)) ?nn"
  let ?a = "argsort ?vals"
  from assms have a: "set ?a = {0..<length ?nn}"
    unfolding argsort_ok_def by (metis length_map)
  have "keys ! (?nn ! j) \<noteq> None" if "j \<in> set ?a" for j
  proof -
    from that a have "j < length ?nn" by simp
    then have "?nn ! j \<in> set ?nn" by (rule nth_mem)
    then show ?thesis by simp
  qed
  then have "filter (\<lambda>i. keys ! i = None) (map (\<lambda>j. ?nn ! j) ?a) = []"
    by (simp add: filter_empty_conv)
  moreover have "filter (\<lambda>i. keys ! i = None) ?na = ?na" by simp
  ultimately show ?thesis
    unfolding nargsort_def Let_def filter_append by simp
qed

lemma row_take_rows: "j < length idx \<Longrightarrow> row (take_rows fr idx) j = row fr (idx ! j)"
  by (simp add: row_def take_rows_def case_prod_unfold)

lemma take_rows_names: "map fst (take_rows fr idx) = map fst fr"
  by (simp add: take_rows_def case_prod_unfold comp_def)

lemma date_sort_not_in_schema: "''date_sort'' \<notin> set schema"
  by (simp add: schema_def)


lemma stable_argsort_ok:
  "\<forall>xs. distinct (stable_argsort xs) \<and> set (stable_argsort xs) = {0..<length xs}
     \<and> sorted (map (\<lambda>j. xs ! j) (stable_argsort xs))"
proof
  fix xs :: "int list"
  let ?zs = "zip xs [0..<length xs]"
  let ?s = "sort_key fst ?zs"
  have ms: "map snd ?zs = [0..<length xs]" by simp
  have dz: "distinct ?zs" by (simp add: distinct_zipI2)
  have "distinct (map snd ?zs)" unfolding ms by simp
  then have inj: "inj_on snd (set ?zs)" unfolding distinct_map by blast
  have d: "distinct (map snd ?s)"
    using dz inj by (simp add: distinct_map)
  have "set (map snd ?s) = snd ` set ?zs" by simp
  also have "\<dots> = set (map snd ?zs)" by (simp only: set_map)
  also have "\<dots> = {0..<length xs}" unfolding ms by simp
  finally have s: "set (map snd ?s) = {0..<length xs}" .
  have "xs ! snd p = fst p" if "p \<in> set ?s" for p
  proof -
    from that have "p \<in> set ?zs" by simp
    then obtain k where k: "xs ! k = fst p" "[0..<length xs] ! k = snd p" "k < length xs"
      unfolding in_set_zip by auto
    from k(2,3) have "snd p = k" by simp
    with k(1) show ?thesis by simp
  qed
  then have "map ((\<lambda>j. xs ! j) \<circ> snd) ?s = map fst ?s" by (intro map_cong) simp_all
  then have e: "map (\<lambda>j. xs ! j) (map snd ?s) = map fst ?s" by (simp only: map_map)
  have o: "sorted (map (\<lambda>j. xs ! j) (map snd ?s))" unfolding e by (rule sorted_sort_key)
  from d s o show "distinct (stable_argsort xs) \<and> set (stable_argsort xs) = {0..<length xs}
     \<and> sorted (map (\<lambda>j. xs ! j) (stable_argsort xs))"
    unfolding stable_argsort_def by blast
qed

subsection \<open>Statuses the application writes\<close>

lemma three_way_count:
  assumes "a \<noteq> b"
  shows "length sts = length (filter (\<lambda>s. s = a) sts) + length (filter (\<lambda>s. s = b) sts)
      + length (filter (\<lambda>s. s \<noteq> a \<and> s \<noteq> b) sts)"
  using assms by (induction sts) auto

lemma two_way_iff:
  assumes "a \<noteq> b"
  shows "(length sts = length (filter (\<lambda>s. s = a) sts) + length (filter (\<lambda>s. s = b) sts))
     = (\<forall>s \<in> set sts. s = a \<or> s = b)"
proof -
  have "(length (filter (\<lambda>s. s \<noteq> a \<and> s \<noteq> b) sts) = 0) = (\<forall>s \<in> set sts. s = a \<or> s = b)"
    by (auto simp: filter_empty_conv)
  with three_way_count [OF assms, of sts] show ?thesis by linarith
qed

lemma enum_stable: "enum_statuses vs \<Longrightarrow> csv_stable vs"
proof (cases vs)
  case Nil
  then show ?thesis by (simp add: csv_stable_def numeric_col_def)
next
  case (Cons v vs')
  assume e: "enum_statuses vs"
  have "u = NaN \<or> (\<exists>s. u = StrV s \<and> \<not> is_na s)" if "u \<in> set vs" for u
    using e that pending_text completed_text unfolding enum_statuses_def by blast
  moreover have "\<exists>s. StrV s \<in> set vs \<and> parse_int s = None"
  proof -
    from e Cons have "v = StrV ''pending'' \<or> v = StrV ''completed''"
      unfolding enum_statuses_def by simp
    moreover have "v \<in> set vs" using Cons by simp
    ultimately show ?thesis using pending_text completed_text by metis
  qed
  ultimately have "text_col vs" unfolding text_col_def by blast
  then show ?thesis by (simp add: csv_stable_def)
qed

lemma enum_no_int: "enum_statuses vs \<Longrightarrow> IntV i \<notin> set vs"
  unfolding enum_statuses_def by blast

lemma enum_snoc: "enum_statuses vs \<Longrightarrow> enum_statuses (vs @ [StrV ''pending''])"
  unfolding enum_statuses_def by simp

lemma save_status_step:
  assumes "valid_store w" "strip (title fm) \<noteq> []"
  obtains w' f where "save_button_handler w fm = Inr w'" "valid_store w'" "csv_file w' = Some f"
    "f \<noteq> []"
    "map_of f ''status'' = Some (map cell_to_field (column w ''status'') @ [''pending''])"
proof -
  from assms(1) obtain rs n sts where rs: "load_reminders w = Inr rs" "map fst rs = schema"
    "normal rs" "uniform rs n" and sts: "map_of rs ''status'' = Some sts" "length sts = n"
    by (rule update_loaded)
  have ne: "rs \<noteq> []" using rs(2) schema_nonempty by auto
  have ln: "len rs = n" using len_uniform [OF rs(4) ne] .
  have col: "column w ''status'' = sts" by (simp add: column_def rs(1) sts(1))
  let ?d = "[(''reminder_id'', IntV (int n + 1)),
             (''raw_input'', StrV (user_input fm)),
             (''title'', StrV (title fm)),
             (''category'', StrV (category fm)),
             (''date'', if strip (date fm) \<noteq> [] then StrV (date fm) else NoneV),
             (''time'', if strip (time fm) \<noteq> [] then StrV (time fm) else NoneV),
             (''priority'', StrV (priority fm)),
             (''status'', StrV ''pending''),
             (''created_at'', StrV (created_at fm))]"
  let ?rs' = "concat_frames rs (DataFrame ?d)"
  let ?w' = "w\<lparr>csv_file := Some (to_csv ?rs'), reminders := None, parsed_reminder := JNull\<rparr>"
  have keys: "set (map fst ?d) \<subseteq> set schema" by (simp add: schema_def)
  have rs': "?rs' = map (\<lambda>c. (c, reindex_col rs c @ [case map_of ?d c of Some v \<Rightarrow> v | None \<Rightarrow> NaN])) schema"
    using rs(2) keys by (rule concat_new_row) simp
  have names: "map fst ?rs' = schema" unfolding rs' by (simp add: comp_def)
  have "length (reindex_col rs c) = n" if "c \<in> set schema" for c
  proof -
    from rs(2) that obtain vs where "map_of rs c = Some vs" "(c, vs) \<in> set rs"
      by (rule map_of_schema)
    with rs(4) show ?thesis by (simp add: reindex_col_def uniformD)
  qed
  then have un: "uniform ?rs' (Suc n)" unfolding rs' by (auto simp: uniform_def)
  have saved: "save_button_handler w fm = Inr ?w'"
    using assms(2) by (simp add: save_button_handler_def save_reminder_to_csv_def rs(1) ln Let_def)
  have valid: "valid_store ?w'"
    using valid_after [OF names un, of w] by (simp add: valid_store_def)
  have "map_of ?rs' ''status'' = Some (sts @ [StrV ''pending''])"
    unfolding rs' by (simp add: map_of_keys [OF status_in_schema] reindex_col_def sts(1))
  then have field: "map_of (to_csv ?rs') ''status'' = Some (map cell_to_field sts @ [''pending''])"
    by (simp add: map_of_to_csv)
  have nonempty: "to_csv ?rs' \<noteq> []"
    using names schema_nonempty by (auto simp: to_csv_def)
  show ?thesis
    using that [of ?w' "to_csv ?rs'"] saved valid field nonempty by (simp add: col)
qed



lemma save_keeps_enum:
  assumes "enum_store w" "strip (title fm) \<noteq> []"
  shows "\<exists>w'. save_button_handler w fm = Inr w' \<and> enum_store w'"
proof -
  from assms(1) have v: "valid_store w" and e: "enum_statuses (column w ''status'')"
    unfolding enum_store_def by blast+
  from v assms(2) obtain w' f where s: "save_button_handler w fm = Inr w'" "valid_store w'"
    "csv_file w' = Some f" "f \<noteq> []"
    "map_of f ''status'' = Some (map cell_to_field (column w ''status'') @ [''pending''])"
    by (rule save_status_step)
  let ?new = "column w ''status'' @ [StrV ''pending'']"
  have en: "enum_statuses ?new" using e by (rule enum_snoc)
  have m: "map cell_to_field (column w ''status'') @ [''pending''] = map cell_to_field ?new" by simp
  have "column w' ''status'' = infer_column (map cell_to_field ?new)"
    using column_csv [OF s(3,4,5)] unfolding m .
  also have "\<dots> = ?new" using enum_stable [OF en] by (rule stable_roundtrip)
  finally have c: "column w' ''status'' = ?new" .
  have "enum_statuses (column w' ''status'')" unfolding c by (rule en)
  with s(2) have "enum_store w'" unfolding enum_store_def by blast
  with s(1) show ?thesis by blast
qed

lemma update_keeps_enum:
  assumes "enum_store w" "st = StrV ''pending'' \<or> st = StrV ''completed''"
  shows "\<exists>w'. update_reminder_status w rid st = Inr w' \<and> enum_store w'"
proof -
  from assms(1) have v: "valid_store w" and e: "enum_statuses (column w ''status'')"
    by (simp_all add: enum_store_def)
  from v obtain rs n ids sts where rs: "load_reminders w = Inr rs" "map fst rs = schema"
    "normal rs" "uniform rs n" and ids: "map_of rs ''reminder_id'' = Some ids" "length ids = n"
    and sts: "map_of rs ''status'' = Some sts" "length sts = n" "(''status'', sts) \<in> set rs"
    by (rule update_loaded)
  have col: "column w ''status'' = sts" by (simp add: column_def rs(1) sts(1))
  let ?msk = "map (\<lambda>v. py_eq v rid) ids"
  let ?rs' = "loc_set rs ?msk ''status'' st"
  let ?w' = "w\<lparr>csv_file := Some (to_csv ?rs'), reminders := None\<rparr>"
  let ?sts' = "map2 (\<lambda>m x. if m then st else x) ?msk sts"
  have st_in: "''status'' \<in> set (map fst rs)" using rs(2) status_in_schema by simp
  have ne: "rs \<noteq> []" using rs(2) schema_nonempty by auto
  have names: "map fst ?rs' = schema" using loc_set_names2 [OF st_in] rs(2) by simp
  then have ne': "?rs' \<noteq> []" using schema_nonempty by (metis map_is_Nil_conv)
  have un': "uniform ?rs' n"
    using loc_set_uniform [OF st_in, of ?msk st] rs(4) ids(2) by simp
  from assms(2) obtain t where t: "st = StrV t" "\<not> is_na t" "parse_int t = None"
    using pending_text completed_text by blast
  have en': "enum_statuses ?sts'"
  proof -
    have "set ?sts' \<subseteq> insert st (set sts)" by (rule map2_set_subset)
    with e assms(2) show ?thesis unfolding col enum_statuses_def by blast
  qed
  have "csv_stable ?sts'" using en' by (rule enum_stable)
  moreover have "vs = sts" if "(''status'', vs) \<in> set rs" for vs
    using that sts(1) rs(2) schema_distinct by (metis map_of_eq_Some_iff option.inject)
  ultimately have "normal ?rs'"
    using st_in rs(3) by (intro loc_set_normal) auto
  then have l: "load_reminders ?w' = Inr ?rs'" using ne' by (rule reload)
  have u: "update_reminder_status w rid st = Inr ?w'" using rs(1) ids(1) by (rule update_eq)
  have vw: "valid_store ?w'" using names un' by (rule valid_after)
  have "map_of ?rs' ''status'' = Some ?sts'"
    by (simp add: loc_set_map_of [OF st_in] sts(1))
  then have "column ?w' ''status'' = ?sts'" by (simp add: column_def l)
  with en' have "enum_statuses (column ?w' ''status'')" by simp
  with u vw show ?thesis unfolding enum_store_def by blast
qed

lemma run_keeps_enum: "enum_store w \<Longrightarrow> enum_store (run w acts)"
proof (induction acts arbitrary: w)
  case Nil
  then show ?case by simp
next
  case (Cons a acts)
  show ?case
  proof (cases a)
    case (Save fm)
    show ?thesis
    proof (cases "strip (title fm) = []")
      case True
      then have "save_button_handler w fm = Inl TitleRequired" by (simp add: save_button_handler_def)
      with Save Cons.IH [OF Cons.prems] show ?thesis by simp
    next
      case False
      with Cons.prems obtain w' where "save_button_handler w fm = Inr w'" "enum_store w'"
        using save_keeps_enum by blast
      with Save Cons.IH [of w'] show ?thesis by simp
    qed
  next
    case (Complete rid)
    from Cons.prems obtain w' where
      "update_reminder_status w rid (StrV ''completed'') = Inr w'" "enum_store w'"
      using update_keeps_enum [of w "StrV ''completed''" rid] by blast
    with Complete Cons.IH [of w'] show ?thesis by simp
  next
    case (Undo rid)
    from Cons.prems obtain w' where
      "update_reminder_status w rid (StrV ''pending'') = Inr w'" "enum_store w'"
      using update_keeps_enum [of w "StrV ''pending''" rid] by blast
    with Undo Cons.IH [of w'] show ?thesis by simp
  qed
qed

lemma no_file_enum: "csv_file w = None \<Longrightarrow> enum_store w"
  by (simp add: enum_store_def enum_statuses_def valid_store_def column_def load_reminders_def
      map_of_keys [OF status_in_schema])

lemma summary_of_valid:
  assumes "valid_store w"
  shows "\<exists>rs sm. load_reminders w = Inr rs \<and> summary_metrics fromisoformat now rs = Inr sm
     \<and> total sm = length (column w ''status'')
     \<and> overdue sm \<le> pending sm
     \<and> overdue sm = length (filter (\<lambda>i. column w ''status'' ! i = StrV ''pending''
                          \<and> is_overdue fromisoformat now (column w ''date'' ! i)) [0..<total sm])
     \<and> (total sm = pending sm + completed sm
          \<longleftrightarrow> (\<forall>s \<in> set (column w ''status''). s = StrV ''pending'' \<or> s = StrV ''completed''))"
proof -
  from assms obtain rs n where rs: "load_reminders w = Inr rs" "map fst rs = schema"
    "normal rs" "uniform rs n" by (rule load_valid)
  from rs(2) status_in_schema obtain sts where sts: "map_of rs ''status'' = Some sts"
    "(''status'', sts) \<in> set rs" by (rule map_of_schema)
  from rs(2) date_in_schema obtain ds where ds: "map_of rs ''date'' = Some ds"
    "(''date'', ds) \<in> set rs" by (rule map_of_schema)
  from sts(2) ds(2) rs(4) have n: "length sts = n" "length ds = n" by (simp_all add: uniformD)
  have ne: "rs \<noteq> []" using rs(2) schema_nonempty by auto
  have ln: "len rs = n" using len_uniform [OF rs(4) ne] .
  have cs: "column w ''status'' = sts" by (simp add: column_def rs(1) sts(1))
  have cd: "column w ''date'' = ds" by (simp add: column_def rs(1) ds(1))
  let ?ov = "length (filter (\<lambda>(d, s). is_overdue fromisoformat now d \<and> s = StrV ''pending'') (zip ds sts))"
  let ?sm = "\<lparr>total = n,
            pending = length (filter (\<lambda>s. s = StrV ''pending'') sts),
            completed = length (filter (\<lambda>s. s = StrV ''completed'') sts),
            overdue = ?ov\<rparr>"
  have sm: "summary_metrics fromisoformat now rs = Inr ?sm"
    by (simp add: summary_metrics_def sts(1) ds(1) ln py_eq_StrV)
  have le: "?ov \<le> length (filter (\<lambda>s. s = StrV ''pending'') sts)"
    by (rule filter_zip_le)
  have ix: "?ov = length (filter (\<lambda>i. sts ! i = StrV ''pending''
                          \<and> is_overdue fromisoformat now (ds ! i)) [0..<n])"
    using n by (intro filter_zip_indices) simp_all
  have "StrV ''pending'' \<noteq> StrV ''completed''" by simp
  from two_way_iff [OF this, of sts] n(1)
  have tot: "(n = length (filter (\<lambda>s. s = StrV ''pending'') sts)
               + length (filter (\<lambda>s. s = StrV ''completed'') sts))
       = (\<forall>s \<in> set sts. s = StrV ''pending'' \<or> s = StrV ''completed'')"
    by simp
  show ?thesis
    unfolding cs cd
    by (intro exI [of _ rs] exI [of _ ?sm]) (use rs(1) sm le ix tot n in simp)
qed


section \<open>The claims\<close>

text \<open>
  Claim C7.  When the given \<^verbatim>\<open>reminder_id\<close> equals the id of no stored row,
  \<open>update_reminder_status\<close> raises nothing and the collection loaded afterwards is the
  collection loaded before; the draft held in the session is untouched as well.  The store
  is one with the fixed ten-column schema (or no file yet).  The file itself is written
  anew by the call, and created with its header when there was none.
\<close>

theorem update_unmatched_is_noop:
  assumes "valid_store w"
    and "\<forall>v \<in> set (column w ''reminder_id''). \<not> py_eq v rid"
  shows "\<exists>w'. update_reminder_status w rid st = Inr w' \<and> load_reminders w' = load_reminders w
           \<and> parsed_reminder w' = parsed_reminder w \<and> api_enabled w' = api_enabled w"
proof -
  from assms(1) obtain rs n where rs: "load_reminders w = Inr rs" "map fst rs = schema"
    "normal rs" "uniform rs n" by (rule load_valid)
  from rs(2) id_in_schema obtain ids where ids: "map_of rs ''reminder_id'' = Some ids"
    "(''reminder_id'', ids) \<in> set rs" by (rule map_of_schema)
  from ids(2) rs(4) have n: "length ids = n" by (simp add: uniformD)
  let ?msk = "map (\<lambda>v. py_eq v rid) ids"
  from assms(2) have "\<forall>m \<in> set ?msk. \<not> m" by (auto simp: column_def rs(1) ids(1))
  moreover have "''status'' \<in> set (map fst rs)" using rs(2) status_in_schema by simp
  ultimately have same: "loc_set rs ?msk ''status'' st = rs"
    using rs(4) n by (intro loc_set_unmatched) auto
  have ne: "rs \<noteq> []" using rs(2) schema_nonempty by auto
  let ?w' = "w\<lparr>csv_file := Some (to_csv rs), reminders := None\<rparr>"
  have u: "update_reminder_status w rid st = Inr ?w'"
    by (simp add: update_reminder_status_def rs(1) ids(1) same Let_def)
  have "load_reminders ?w' = read_csv (to_csv rs)"
    by (simp add: load_reminders_def)
  also have "\<dots> = Inr rs" by (rule read_to_csv [OF rs(3) ne])
  finally have "load_reminders ?w' = load_reminders w" by (simp add: rs(1))
  with u show ?thesis by (intro exI [of _ ?w']) simp
qed

theorem update_unmatched_is_noop_witness:
  "valid_store example_store
   \<and> column example_store ''reminder_id'' = [IntV 1, IntV 2]
   \<and> (\<exists>w'. update_reminder_status example_store (IntV 7) (StrV ''completed'') = Inr w'
         \<and> load_reminders w' = load_reminders example_store
         \<and> parsed_reminder w' = parsed_reminder example_store
         \<and> api_enabled w' = api_enabled example_store)"
proof -
  have v: "valid_store example_store" by code_simp
  have c: "column example_store ''reminder_id'' = [IntV 1, IntV 2]" by code_simp
  then have u: "\<forall>v \<in> set (column example_store ''reminder_id''). \<not> py_eq v (IntV 7)" by simp
  from update_unmatched_is_noop [OF v u] v c show ?thesis by blast
qed

text \<open>
  Claim C8.  Where every stored row with the given id is pending, marking the id completed
  and then pending again leaves a store that loads the collection it loaded at the start:
  every row, the matching ones included, is as it was.
\<close>

theorem complete_then_undo_restores:
  assumes "valid_store w"
    and "\<forall>i < length (column w ''reminder_id'').
           py_eq (column w ''reminder_id'' ! i) rid \<longrightarrow> column w ''status'' ! i = StrV ''pending''"
  shows "\<exists>w1 w2. update_reminder_status w rid (StrV ''completed'') = Inr w1
           \<and> update_reminder_status w1 rid (StrV ''pending'') = Inr w2
           \<and> load_reminders w2 = load_reminders w"
proof -
  from assms(1) obtain rs n ids sts where rs: "load_reminders w = Inr rs" "map fst rs = schema"
    "normal rs" "uniform rs n" and ids: "map_of rs ''reminder_id'' = Some ids" "length ids = n"
    and sts: "map_of rs ''status'' = Some sts" "length sts = n" "(''status'', sts) \<in> set rs"
    by (rule update_loaded)
  let ?msk = "map (\<lambda>v. py_eq v rid) ids"
  let ?rs1 = "loc_set rs ?msk ''status'' (StrV ''completed'')"
  let ?w1 = "w\<lparr>csv_file := Some (to_csv ?rs1), reminders := None\<rparr>"
  let ?w2 = "?w1\<lparr>csv_file := Some (to_csv rs), reminders := None\<rparr>"
  have st_in: "''status'' \<in> set (map fst rs)" using rs(2) status_in_schema by simp
  have ne: "rs \<noteq> []" using rs(2) schema_nonempty by auto
  have dist: "distinct (map fst rs)" using rs(2) schema_distinct by simp
  have pend: "sts ! i = StrV ''pending''" if "i < n" "?msk ! i" for i
    using assms(2) that ids(2) by (simp add: column_def rs(1) ids(1) sts(1))
  have stable: "csv_stable sts" using rs(3) sts(3) unfolding normal_def by force
  have cond: "(\<forall>i. IntV i \<notin> set sts) \<or> (\<forall>m \<in> set ?msk. \<not> m)"
  proof (cases "\<forall>m \<in> set ?msk. \<not> m")
    case True
    then show ?thesis by blast
  next
    case False
    then obtain i where i: "i < length ?msk" "?msk ! i" by (metis in_set_conv_nth)
    with ids(2) have "i < n" by simp
    from pend [OF this i(2)] \<open>i < n\<close> sts(2) have "StrV ''pending'' \<in> set sts"
      by (metis nth_mem)
    with stable show ?thesis using text_col_no_int by blast
  qed
  have "csv_stable (map2 (\<lambda>m x. if m then StrV ''completed'' else x) ?msk sts)"
    using stable cond completed_text ids(2) sts(2) by (intro stable_set) simp_all
  moreover have "vs = sts" if "(''status'', vs) \<in> set rs" for vs
    using that sts(1) dist by (metis map_of_eq_Some_iff option.inject)
  ultimately have n1: "normal ?rs1"
    using st_in rs(3) by (intro loc_set_normal) auto
  have names1: "map fst ?rs1 = map fst rs" using st_in by (rule loc_set_names2)
  then have ne1: "?rs1 \<noteq> []" using ne by (metis map_is_Nil_conv)
  have u1: "update_reminder_status w rid (StrV ''completed'') = Inr ?w1"
    using rs(1) ids(1) by (rule update_eq)
  have l1: "load_reminders ?w1 = Inr ?rs1" using n1 ne1 by (rule reload)
  have ids1: "map_of ?rs1 ''reminder_id'' = Some ids"
    by (simp add: loc_set_map_of [OF st_in] ids(1))
  have "loc_set ?rs1 ?msk ''status'' (StrV ''pending'') = loc_set rs ?msk ''status'' (StrV ''pending'')"
    using st_in by (rule loc_set_twice)
  also have "\<dots> = rs"
  proof (rule loc_set_same [OF st_in dist _ sts(1)])
    show "uniform rs (length ?msk)" using rs(4) ids(2) by simp
    show "\<forall>i < length sts. ?msk ! i \<longrightarrow> sts ! i = StrV ''pending''"
      using pend sts(2) by blast
  qed
  finally have undone: "loc_set ?rs1 ?msk ''status'' (StrV ''pending'') = rs" .
  have u2: "update_reminder_status ?w1 rid (StrV ''pending'') = Inr ?w2"
    using update_eq [OF l1 ids1, of rid "StrV ''pending''"] unfolding undone by simp
  have l2: "load_reminders ?w2 = Inr rs" using rs(3) ne by (rule reload)
  from u1 u2 l2 rs(1) show ?thesis by metis
qed

theorem complete_then_undo_restores_witness:
  "valid_store example_store
   \<and> column example_store ''reminder_id'' = [IntV 1, IntV 2]
   \<and> column example_store ''status'' = [StrV ''pending'', StrV ''completed'']
   \<and> (\<exists>w1 w2. update_reminder_status example_store (IntV 1) (StrV ''completed'') = Inr w1
         \<and> update_reminder_status w1 (IntV 1) (StrV ''pending'') = Inr w2
         \<and> load_reminders w2 = load_reminders example_store)"
proof -
  have v: "valid_store example_store" by code_simp
  have c: "column example_store ''reminder_id'' = [IntV 1, IntV 2]" by code_simp
  have s: "column example_store ''status'' = [StrV ''pending'', StrV ''completed'']" by code_simp
  have h: "\<forall>i < length (column example_store ''reminder_id'').
      py_eq (column example_store ''reminder_id'' ! i) (IntV 1)
        \<longrightarrow> column example_store ''status'' ! i = StrV ''pending''"
    unfolding c s by (simp add: less_Suc_eq)
  from complete_then_undo_restores [OF v h] v c s show ?thesis by blast
qed

text \<open>
  Claim C10.  \<open>update_reminder_status\<close> writes back the frame it loaded with one change:
  in every row whose \<^verbatim>\<open>reminder_id\<close> equals the given id the status is the new status.
  The columns, the number of rows, their order, every other cell of a matching row and every
  cell of the other rows are those loaded.  Where the statuses stored and the new one are
  \<^verbatim>\<open>pending\<close> or \<^verbatim>\<open>completed\<close>, loading the file again gives that same frame.
\<close>

theorem update_status_frame_effect:
  assumes "valid_store w"
  shows "\<exists>rs rs' w'. load_reminders w = Inr rs \<and> update_reminder_status w rid st = Inr w'
     \<and> csv_file w' = Some (to_csv rs')
     \<and> map fst rs' = map fst rs \<and> len rs' = len rs
     \<and> (\<forall>i < len rs. \<forall>c. map_of (row rs' i) c =
           (if c = ''status'' \<and> (\<exists>v. map_of (row rs i) ''reminder_id'' = Some v \<and> py_eq v rid)
            then Some st else map_of (row rs i) c))
     \<and> ((st = StrV ''pending'' \<or> st = StrV ''completed'')
          \<and> (\<forall>v \<in> set (column w ''status''). v = StrV ''pending'' \<or> v = StrV ''completed'')
          \<longrightarrow> load_reminders w' = Inr rs')"
proof -
  from assms obtain rs n ids sts where rs: "load_reminders w = Inr rs" "map fst rs = schema"
    "normal rs" "uniform rs n" and ids: "map_of rs ''reminder_id'' = Some ids" "length ids = n"
    and sts: "map_of rs ''status'' = Some sts" "length sts = n" "(''status'', sts) \<in> set rs"
    by (rule update_loaded)
  let ?msk = "map (\<lambda>v. py_eq v rid) ids"
  let ?rs' = "loc_set rs ?msk ''status'' st"
  let ?w' = "w\<lparr>csv_file := Some (to_csv ?rs'), reminders := None\<rparr>"
  have st_in: "''status'' \<in> set (map fst rs)" using rs(2) status_in_schema by simp
  have ne: "rs \<noteq> []" using rs(2) schema_nonempty by auto
  have names: "map fst ?rs' = map fst rs" using st_in by (rule loc_set_names2)
  then have ne': "?rs' \<noteq> []" using ne by (metis map_is_Nil_conv)
  have un': "uniform ?rs' n"
    using loc_set_uniform [OF st_in, of ?msk st] rs(4) ids(2) by simp
  have lens: "len ?rs' = len rs"
    using len_uniform [OF un' ne'] len_uniform [OF rs(4) ne] by simp
  have ln: "len rs = n" using len_uniform [OF rs(4) ne] .
  have rows: "map_of (row ?rs' i) c =
           (if c = ''status'' \<and> (\<exists>v. map_of (row rs i) ''reminder_id'' = Some v \<and> py_eq v rid)
            then Some st else map_of (row rs i) c)" if "i < len rs" for i c
  proof (cases "c = ''status''")
    case True
    from that ln ids(2) sts(2) have i: "i < length ids" "i < length sts" by simp_all
    have "map_of (row ?rs' i) c = Some (map2 (\<lambda>m x. if m then st else x) ?msk sts ! i)"
      by (simp add: row_map_of loc_set_map_of [OF st_in] True sts(1))
    also have "\<dots> = Some (if py_eq (ids ! i) rid then st else sts ! i)"
      using i by simp
    finally have l: "map_of (row ?rs' i) c = Some (if py_eq (ids ! i) rid then st else sts ! i)" .
    have r: "(if c = ''status'' \<and> (\<exists>v. map_of (row rs i) ''reminder_id'' = Some v \<and> py_eq v rid)
            then Some st else map_of (row rs i) c) = Some (if py_eq (ids ! i) rid then st else sts ! i)"
      by (simp add: row_map_of ids(1) sts(1) True)
    show ?thesis unfolding l r ..
  next
    case False
    then show ?thesis by (simp add: row_map_of loc_set_map_of [OF st_in])
  qed
  have again: "load_reminders ?w' = Inr ?rs'"
    if s: "st = StrV ''pending'' \<or> st = StrV ''completed''"
      and a: "\<forall>v \<in> set (column w ''status''). v = StrV ''pending'' \<or> v = StrV ''completed''"
  proof -
    from s obtain t where t: "st = StrV t" "\<not> is_na t" "parse_int t = None"
      using pending_text completed_text by blast
    from a have noint: "\<forall>i. IntV i \<notin> set sts"
      by (auto simp: column_def rs(1) sts(1))
    have "csv_stable sts" using rs(3) sts(3) unfolding normal_def by force
    then have "csv_stable (map2 (\<lambda>m x. if m then StrV t else x) ?msk sts)"
      using noint t ids(2) sts(2) by (intro stable_set) simp_all
    moreover have "vs = sts" if "(''status'', vs) \<in> set rs" for vs
      using that sts(1) rs(2) schema_distinct by (metis map_of_eq_Some_iff option.inject)
    ultimately have "normal ?rs'"
      using st_in rs(3) t(1) by (intro loc_set_normal) auto
    then show ?thesis using ne' by (rule reload)
  qed
  have "update_reminder_status w rid st = Inr ?w'" using rs(1) ids(1) by (rule update_eq)
  moreover have "csv_file ?w' = Some (to_csv ?rs')" by simp
  ultimately show ?thesis
    using rs(1) names lens rows again by blast
qed

theorem update_status_frame_effect_witness:
  "valid_store example_store
   \<and> column example_store ''status'' = [StrV ''pending'', StrV ''completed'']
   \<and> (\<exists>rs rs' w'. load_reminders example_store = Inr rs
         \<and> update_reminder_status example_store (IntV 1) (StrV ''completed'') = Inr w'
         \<and> csv_file w' = Some (to_csv rs')
         \<and> map fst rs' = map fst rs \<and> len rs' = len rs
         \<and> (\<forall>i < len rs. \<forall>c. map_of (row rs' i) c =
               (if c = ''status'' \<and> (\<exists>v. map_of (row rs i) ''reminder_id'' = Some v \<and> py_eq v (IntV 1))
                then Some (StrV ''completed'') else map_of (row rs i) c))
         \<and> load_reminders w' = Inr rs')"
proof -
  have v: "valid_store example_store" by code_simp
  have s: "column example_store ''status'' = [StrV ''pending'', StrV ''completed'']" by code_simp
  have h: "\<forall>v \<in> set (column example_store ''status''). v = StrV ''pending'' \<or> v = StrV ''completed''"
    unfolding s by simp
  from update_status_frame_effect [OF v, of "IntV 1" "StrV ''completed''"] h v s
  show ?thesis by blast
qed

text \<open>
  Claim C6.  Saving to a store of \<open>n\<close> rows writes the new row with the id \<open>n + 1\<close>
  (first part).  In a store that began without a file and was only ever saved to, the ids
  loaded are \<open>1, 2, \<dots>\<close> in row order, and so are pairwise different (second part).
\<close>

theorem reminder_id_assignment:
  "(valid_store w \<and> strip (title fm) \<noteq> [] \<longrightarrow>
      (\<exists>w' f. save_button_handler w fm = Inr w' \<and> csv_file w' = Some f
         \<and> map_of f ''reminder_id'' = Some (map cell_to_field (column w ''reminder_id'')
               @ [show_int (int (length (column w ''reminder_id'')) + 1)])))
   \<and> (csv_file w0 = None \<longrightarrow>
        distinct (column (appends w0 fms) ''reminder_id'')
        \<and> column (appends w0 fms) ''reminder_id''
            = map (\<lambda>i. IntV (int i + 1)) [0..<length (column (appends w0 fms) ''reminder_id'')])"
proof (intro conjI impI)
  assume "valid_store w \<and> strip (title fm) \<noteq> []"
  then have "valid_store w" "strip (title fm) \<noteq> []" by simp_all
  then obtain w' f where "save_button_handler w fm = Inr w'" "csv_file w' = Some f"
    "map_of f ''reminder_id'' = Some (map cell_to_field (column w ''reminder_id'')
        @ [show_int (int (length (column w ''reminder_id'')) + 1)])"
    by (rule save_step)
  then show "\<exists>w' f. save_button_handler w fm = Inr w' \<and> csv_file w' = Some f
         \<and> map_of f ''reminder_id'' = Some (map cell_to_field (column w ''reminder_id'')
               @ [show_int (int (length (column w ''reminder_id'')) + 1)])"
    by blast
next
  assume "csv_file w0 = None"
  then have "valid_store w0 \<and> column w0 ''reminder_id'' = ids_upto 0" by (rule no_file_numbering)
  then obtain k where k: "column (appends w0 fms) ''reminder_id'' = ids_upto k"
    using appends_numbering by blast
  show "distinct (column (appends w0 fms) ''reminder_id'')"
    unfolding k by (rule ids_upto_distinct)
  have "length (ids_upto k) = k" by (simp add: ids_upto_def)
  then show "column (appends w0 fms) ''reminder_id''
            = map (\<lambda>i. IntV (int i + 1)) [0..<length (column (appends w0 fms) ''reminder_id'')]"
    unfolding k by (simp add: ids_upto_def)
qed

theorem reminder_id_assignment_witness:
  "valid_store example_store \<and> strip (title example_form) \<noteq> []
   \<and> (\<exists>w' f. save_button_handler example_store example_form = Inr w' \<and> csv_file w' = Some f
         \<and> map_of f ''reminder_id'' = Some [''1'', ''2'', ''3''])
   \<and> csv_file no_file = None
   \<and> distinct (column (appends no_file [example_form, example_form\<lparr>title := ''  ''\<rparr>, example_form])
         ''reminder_id'')
   \<and> column (appends no_file [example_form, example_form\<lparr>title := ''  ''\<rparr>, example_form])
         ''reminder_id'' = [IntV 1, IntV 2]"
proof -
  have v: "valid_store example_store" by code_simp
  have t: "strip (title example_form) \<noteq> []" by code_simp
  have n: "csv_file no_file = None" by code_simp
  have f: "map cell_to_field (column example_store ''reminder_id'')
      @ [show_int (int (length (column example_store ''reminder_id'')) + 1)] = [''1'', ''2'', ''3'']"
    by code_simp
  have c: "column (appends no_file [example_form, example_form\<lparr>title := ''  ''\<rparr>, example_form])
         ''reminder_id'' = [IntV 1, IntV 2]"
    by code_simp
  from reminder_id_assignment [of example_store example_form no_file
      "[example_form, example_form\<lparr>title := ''  ''\<rparr>, example_form]"] v t n
  show ?thesis unfolding f c by simp
qed

text \<open>
  Claim C1.  The notes typed into the form are not written: the row saved from a form whose
  notes are \<^verbatim>\<open>bring ID\<close> loads with a missing value in the \<^verbatim>\<open>notes\<close> column.
\<close>

theorem saved_notes_are_lost:
  "notes example_form = ''bring ID''
   \<and> (case save_button_handler no_file example_form of
          Inl e \<Rightarrow> None
        | Inr w \<Rightarrow> (case load_reminders w of Inl e \<Rightarrow> None | Inr rs \<Rightarrow> map_of (row rs 0) ''notes''))
       = Some NaN"
  by code_simp

text \<open>
  Claim C2.  Whatever \<^verbatim>\<open>fromisoformat\<close> accepts (it accepts nothing shorter than seven
  characters), \<open>is_overdue\<close> is true exactly when the text of the value parses and the date
  parsed lies strictly before today's date; the times of day on either side play no part.
  So it is false for a missing value, for a text that does not parse, and for a date equal to
  or after today's.
\<close>

theorem is_overdue_iff:
  assumes "\<forall>s. length s < 7 \<longrightarrow> fromisoformat s = None"
  shows "(is_overdue fromisoformat now v \<longleftrightarrow>
            (\<exists>dt. fromisoformat (py_str v) = Some dt \<and> date_lt (date_of dt) (date_of now)))
       \<and> (isna v \<longrightarrow> \<not> is_overdue fromisoformat now v)
       \<and> (fromisoformat (py_str v) = None \<longrightarrow> \<not> is_overdue fromisoformat now v)
       \<and> (\<forall>dt. fromisoformat (py_str v) = Some dt
              \<and> (date_of dt = date_of now \<or> date_lt (date_of now) (date_of dt))
            \<longrightarrow> \<not> is_overdue fromisoformat now v)"
proof -
  have main: "is_overdue fromisoformat now v \<longleftrightarrow>
            (\<exists>dt. fromisoformat (py_str v) = Some dt \<and> date_lt (date_of dt) (date_of now))"
  proof (cases "\<not> truthy v \<or> v = StrV ''null'' \<or> isna v")
    case True
    then have "length (py_str v) < 7" by (rule py_str_short)
    with assms have "fromisoformat (py_str v) = None" by blast
    moreover from True have "\<not> is_overdue fromisoformat now v"
      unfolding is_overdue_def by (simp only: if_True not_False_eq_True)
    ultimately show ?thesis by simp
  next
    case False
    then have "is_overdue fromisoformat now v =
        (case fromisoformat (py_str v) of None \<Rightarrow> False
         | Some reminder_date \<Rightarrow> date_lt (date_of reminder_date) (date_of now))"
      unfolding is_overdue_def by (simp only: if_False)
    then show ?thesis by (cases "fromisoformat (py_str v)") simp_all
  qed
  have p1: "\<not> is_overdue fromisoformat now v" if "isna v"
    using that unfolding is_overdue_def by simp
  have p2: "\<not> is_overdue fromisoformat now v" if "fromisoformat (py_str v) = None"
    unfolding main using that by simp
  have p3: "\<not> is_overdue fromisoformat now v"
    if h: "fromisoformat (py_str v) = Some dt \<and> (date_of dt = date_of now \<or> date_lt (date_of now) (date_of dt))" for dt
  proof -
    from h have "\<not> date_lt (date_of dt) (date_of now)"
      using date_lt_irrefl [of "date_of now"] date_lt_asym [of "date_of now" "date_of dt"] by metis
    with h show ?thesis unfolding main by simp
  qed
  from main p1 p2 p3 show ?thesis by blast
qed

theorem is_overdue_iff_witness:
  "is_overdue iso_date now1 (StrV ''2024-01-09'')
   \<and> (\<exists>dt. iso_date (py_str (StrV ''2024-01-09'')) = Some dt \<and> date_lt (date_of dt) (date_of now1))
   \<and> \<not> is_overdue iso_date now1 (StrV ''2024-01-10'')
   \<and> \<not> is_overdue iso_date now1 NaN
   \<and> \<not> is_overdue iso_date now1 (StrV ''next week'')"
proof -
  have a: "iso_date (py_str (StrV ''2024-01-09'')) = Some \<lparr>date_of = (2024, 1, 9), time_of = 0\<rparr>"
    by code_simp
  have b: "date_lt (date_of \<lparr>date_of = (2024, 1, 9), time_of = 0\<rparr>) (date_of now1)"
    by code_simp
  have c: "iso_date (py_str (StrV ''2024-01-10'')) = Some \<lparr>date_of = (2024, 1, 10), time_of = 0\<rparr>"
    by code_simp
  have d: "date_of \<lparr>date_of = (2024, 1, 10), time_of = 0\<rparr> = date_of now1" by code_simp
  have e: "iso_date (py_str (StrV ''next week'')) = None" by code_simp
  have f: "isna NaN" by simp
  from is_overdue_iff [OF iso_date_short, of now1 "StrV ''2024-01-09''"] a b
  have 1: "is_overdue iso_date now1 (StrV ''2024-01-09'')" by blast
  from is_overdue_iff [OF iso_date_short, of now1 "StrV ''2024-01-10''"] c d
  have 2: "\<not> is_overdue iso_date now1 (StrV ''2024-01-10'')" by blast
  from is_overdue_iff [OF iso_date_short, of now1 NaN] f
  have 3: "\<not> is_overdue iso_date now1 NaN" by blast
  from is_overdue_iff [OF iso_date_short, of now1 "StrV ''next week''"] e
  have 4: "\<not> is_overdue iso_date now1 (StrV ''next week'')" by blast
  from 1 2 3 4 a b show ?thesis by blast
qed

text \<open>
  Claim C3, as amended.  For the collection loaded from a store with the fixed schema,
  \<open>overdue \<le> pending\<close>, and \<open>overdue\<close> is the number of rows that are pending and whose
  date is overdue, so a completed row is never counted.  \<open>total = pending + completed\<close> holds
  exactly when every status is \<^verbatim>\<open>pending\<close> or \<^verbatim>\<open>completed\<close>.  That is the case in every
  store the application has written itself, starting without a file, by saves and by its
  two status buttons; it is not the case for every collection that can be loaded, as the
  store with a status \<^verbatim>\<open>done\<close> below shows.
\<close>

theorem summary_counts:
  "(valid_store w \<longrightarrow>
      (\<exists>rs sm. load_reminders w = Inr rs \<and> summary_metrics fromisoformat now rs = Inr sm
         \<and> total sm = length (column w ''status'')
         \<and> overdue sm \<le> pending sm
         \<and> overdue sm = length (filter (\<lambda>i. column w ''status'' ! i = StrV ''pending''
                              \<and> is_overdue fromisoformat now (column w ''date'' ! i)) [0..<total sm])
         \<and> (total sm = pending sm + completed sm
              \<longleftrightarrow> (\<forall>s \<in> set (column w ''status''). s = StrV ''pending'' \<or> s = StrV ''completed''))))
   \<and> (csv_file w0 = None \<longrightarrow>
        (\<exists>rs sm. load_reminders (run w0 acts) = Inr rs
           \<and> summary_metrics fromisoformat now rs = Inr sm
           \<and> total sm = pending sm + completed sm))"
proof (intro conjI impI)
  assume "valid_store w"
  then show "\<exists>rs sm. load_reminders w = Inr rs \<and> summary_metrics fromisoformat now rs = Inr sm
         \<and> total sm = length (column w ''status'')
         \<and> overdue sm \<le> pending sm
         \<and> overdue sm = length (filter (\<lambda>i. column w ''status'' ! i = StrV ''pending''
                              \<and> is_overdue fromisoformat now (column w ''date'' ! i)) [0..<total sm])
         \<and> (total sm = pending sm + completed sm
              \<longleftrightarrow> (\<forall>s \<in> set (column w ''status''). s = StrV ''pending'' \<or> s = StrV ''completed''))"
    by (rule summary_of_valid)
next
  assume "csv_file w0 = None"
  then have "enum_store w0" by (rule no_file_enum)
  then have "enum_store (run w0 acts)" by (rule run_keeps_enum)
  then have v: "valid_store (run w0 acts)"
    and e: "\<forall>s \<in> set (column (run w0 acts) ''status''). s = StrV ''pending'' \<or> s = StrV ''completed''"
    unfolding enum_store_def enum_statuses_def by blast+
  from summary_of_valid [OF v, of fromisoformat now] e
  show "\<exists>rs sm. load_reminders (run w0 acts) = Inr rs
           \<and> summary_metrics fromisoformat now rs = Inr sm
           \<and> total sm = pending sm + completed sm"
    by blast
qed


theorem summary_counts_witness:
  "valid_store example_store
   \<and> column example_store ''status'' = [StrV ''pending'', StrV ''completed'']
   \<and> (\<exists>rs sm. load_reminders example_store = Inr rs \<and> summary_metrics iso_date now1 rs = Inr sm
         \<and> sm = \<lparr>total = 2, pending = 1, completed = 1, overdue = 1\<rparr>
         \<and> total sm = pending sm + completed sm \<and> overdue sm \<le> pending sm)
   \<and> csv_file no_file = None
   \<and> (\<exists>rs sm. load_reminders (run no_file [Save example_form, Save example_form, Complete (IntV 2)]) = Inr rs
         \<and> summary_metrics iso_date now1 rs = Inr sm
         \<and> sm = \<lparr>total = 2, pending = 1, completed = 1, overdue = 1\<rparr>
         \<and> total sm = pending sm + completed sm)"
proof -
  have v: "valid_store example_store" by code_simp
  have s: "column example_store ''status'' = [StrV ''pending'', StrV ''completed'']" by code_simp
  have n: "csv_file no_file = None" by code_simp
  have e1: "(case load_reminders example_store of Inl e \<Rightarrow> Inl e | Inr rs \<Rightarrow> summary_metrics iso_date now1 rs)
      = Inr \<lparr>total = 2, pending = 1, completed = 1, overdue = 1\<rparr>"
    by code_simp
  have e2: "(case load_reminders (run no_file [Save example_form, Save example_form, Complete (IntV 2)]) of
               Inl e \<Rightarrow> Inl e | Inr rs \<Rightarrow> summary_metrics iso_date now1 rs)
      = Inr \<lparr>total = 2, pending = 1, completed = 1, overdue = 1\<rparr>"
    by code_simp
  have h: "\<forall>s \<in> set (column example_store ''status''). s = StrV ''pending'' \<or> s = StrV ''completed''"
    unfolding s by simp
  note inst = summary_counts [of example_store iso_date now1 no_file
      "[Save example_form, Save example_form, Complete (IntV 2)]"]
  from inst v h obtain rs sm where
    r: "load_reminders example_store = Inr rs" "summary_metrics iso_date now1 rs = Inr sm"
      "overdue sm \<le> pending sm" "total sm = pending sm + completed sm"
    by blast
  from e1 r(1,2) have sm: "sm = \<lparr>total = 2, pending = 1, completed = 1, overdue = 1\<rparr>" by simp
  from inst n obtain rs2 sm2 where
    r2: "load_reminders (run no_file [Save example_form, Save example_form, Complete (IntV 2)]) = Inr rs2"
      "summary_metrics iso_date now1 rs2 = Inr sm2" "total sm2 = pending sm2 + completed sm2"
    by blast
  from e2 r2(1,2) have sm2: "sm2 = \<lparr>total = 2, pending = 1, completed = 1, overdue = 1\<rparr>" by simp
  from v s n r sm r2 sm2 show ?thesis by blast
qed


theorem summary_total_counterexample:
  "valid_store done_store
   \<and> column done_store ''status'' = [StrV ''pending'', StrV ''done'']
   \<and> (case load_reminders done_store of
          Inl e \<Rightarrow> None
        | Inr rs \<Rightarrow> (case summary_metrics iso_date now1 rs of
                      Inl e \<Rightarrow> None
                    | Inr sm \<Rightarrow> Some (total sm, pending sm, completed sm)))
       = Some (2, 1, 0)
   \<and> (2::nat) \<noteq> 1 + 0"
  by code_simp

text \<open>
  Claim C5.  When the object decoded from the response has no \<^verbatim>\<open>confidence\<close> key, the
  confidence of the draft, as the review section reads it, is the default 0.8; this holds
  for the value \<open>parse_with_gemini\<close> returns and for the draft the handler stores.
\<close>

theorem missing_confidence_defaults:
  assumes "parse_with_gemini generate json_loads ui = JObj kvs"
    and "''confidence'' \<notin> fst ` set kvs"
  shows "confidence (JObj kvs) = Inr (JNum (4 / 5))
     \<and> (parse_button \<and> strip ui \<noteq> [] \<and> kvs \<noteq> [] \<longrightarrow>
          confidence (parsed_reminder (parse_button_handler generate json_loads parse_button ui w))
            = Inr (JNum (4 / 5)))"
proof -
  from assms(2) have "map_of kvs ''confidence'' = None" by (simp add: map_of_eq_None_iff)
  then have c: "confidence (JObj kvs) = Inr (JNum (4 / 5))" by (simp add: confidence_def)
  then show ?thesis by (simp add: parse_button_handler_def assms(1))
qed

theorem missing_confidence_defaults_witness:
  "parse_with_gemini example_generate example_loads ''dentist friday 3pm'' = example_draft
   \<and> confidence example_draft = Inr (JNum (4 / 5))
   \<and> confidence (parsed_reminder
         (parse_button_handler example_generate example_loads True ''dentist friday 3pm'' no_file))
       = Inr (JNum (4 / 5))"
proof -
  have p: "parse_with_gemini example_generate example_loads ''dentist friday 3pm''
      = JObj [(''title'', JStr ''Dentist''), (''priority'', JStr ''High'')]"
    by code_simp
  have k: "''confidence'' \<notin> fst ` set [(''title'', JStr ''Dentist''), (''priority'', JStr ''High'')]"
    by simp
  have s: "strip ''dentist friday 3pm'' \<noteq> []" by code_simp
  from missing_confidence_defaults [OF p k, of True no_file] s p
  show ?thesis by (simp add: example_draft_def)
qed

text \<open>
  Claim C9.  When the endpoint call fails, or the text taken from its response does not
  decode, \<open>parse_with_gemini\<close> returns \<^verbatim>\<open>None\<close> and the handler leaves the whole session
  state, the draft held from before included, as it was.
\<close>

theorem failed_parse_keeps_draft:
  assumes "generate ui = None
     \<or> (\<exists>text t. generate ui = Some text \<and> extract_json_text text = Some t \<and> json_loads t = None)"
  shows "parse_with_gemini generate json_loads ui = JNull
     \<and> parse_button_handler generate json_loads parse_button ui w = w"
proof -
  from assms have "parse_with_gemini generate json_loads ui = JNull"
    by (auto simp: parse_with_gemini_def)
  then show ?thesis by (simp add: parse_button_handler_def)
qed


theorem failed_parse_keeps_draft_witness:
  "example_generate ''???'' = Some ''I could not understand that.''
   \<and> extract_json_text ''I could not understand that.'' = Some ''I could not understand that.''
   \<and> example_loads ''I could not understand that.'' = None
   \<and> parse_with_gemini example_generate example_loads ''???'' = JNull
   \<and> parse_button_handler example_generate example_loads True ''???''
         (no_file\<lparr>parsed_reminder := example_draft\<rparr>) = no_file\<lparr>parsed_reminder := example_draft\<rparr>"
proof -
  have g: "example_generate ''???'' = Some ''I could not understand that.''" by code_simp
  have e: "extract_json_text ''I could not understand that.'' = Some ''I could not understand that.''"
    by code_simp
  have l: "example_loads ''I could not understand that.'' = None" by code_simp
  from g e l have h: "example_generate ''???'' = None
     \<or> (\<exists>text t. example_generate ''???'' = Some text \<and> extract_json_text text = Some t
           \<and> example_loads t = None)"
    by blast
  from failed_parse_keeps_draft [of example_generate "''???''" example_loads True
      "no_file\<lparr>parsed_reminder := example_draft\<rparr>"] h g e l
  show ?thesis by blast
qed

text \<open>
  Claim C4.  The dashboard lists the loaded rows, each once, in this order: first the rows
  whose date \<^verbatim>\<open>to_datetime\<close> can read, ascending by the timestamp read, then the rows whose
  date is missing or unreadable, these in the order they have in the store.  This holds for
  every sort that returns the positions in an ascending order, stable or not.
\<close>

theorem dashboard_order:
  assumes "\<forall>xs. distinct (argsort xs) \<and> set (argsort xs) = {0..<length xs}
             \<and> sorted (map (\<lambda>j. xs ! j) (argsort xs))"
    and "\<forall>vs. length (to_datetime vs) = length vs"
    and "valid_store w"
  shows "\<exists>rs out idx ks z. load_reminders w = Inr rs
     \<and> reminders_sorted to_datetime argsort rs = Inr out
     \<and> map fst out = map fst rs
     \<and> length idx = len rs \<and> distinct idx \<and> set idx = {0..<len rs}
     \<and> (\<forall>j < len rs. row out j = row rs (idx ! j))
     \<and> sorted ks
     \<and> map (\<lambda>i. to_datetime (column w ''date'') ! i) idx = map Some ks @ replicate z None
     \<and> filter (\<lambda>i. to_datetime (column w ''date'') ! i = None) idx
         = filter (\<lambda>i. to_datetime (column w ''date'') ! i = None) [0..<len rs]"
proof -
  from assms(1) have ok: "argsort_ok argsort" by (simp add: argsort_ok_def)
  from assms(3) obtain rs n where rs: "load_reminders w = Inr rs" "map fst rs = schema"
    "normal rs" "uniform rs n" by (rule load_valid)
  from rs(2) date_in_schema obtain ds where ds: "map_of rs ''date'' = Some ds"
    "(''date'', ds) \<in> set rs" by (rule map_of_schema)
  from ds(2) rs(4) have n: "length ds = n" by (simp add: uniformD)
  have ne: "rs \<noteq> []" using rs(2) schema_nonempty by auto
  have ln: "len rs = n" using len_uniform [OF rs(4) ne] .
  have cd: "column w ''date'' = ds" by (simp add: column_def rs(1) ds(1))
  let ?keys = "to_datetime ds"
  let ?idx = "nargsort argsort ?keys"
  let ?out = "take_rows rs ?idx"
  from assms(2) n have lk: "length ?keys = n" by simp
  have "\<forall>p \<in> set ?out. fst p \<noteq> ''date_sort''"
  proof
    fix p assume "p \<in> set ?out"
    then have "fst p \<in> set (map fst ?out)" by simp
    then have "fst p \<in> set schema" by (simp add: take_rows_names rs(2))
    with date_sort_not_in_schema show "fst p \<noteq> ''date_sort''" by metis
  qed
  then have "filter (\<lambda>p. fst p \<noteq> ''date_sort'') ?out = ?out" by (simp add: filter_id_conv)
  then have out: "reminders_sorted to_datetime argsort rs = Inr ?out"
    by (simp add: reminders_sorted_def ds(1) Let_def)
  have names: "map fst ?out = map fst rs" by (rule take_rows_names)
  from nargsort_distinct [OF ok, of ?keys] lk
  have d: "distinct ?idx" "set ?idx = {0..<n}" by simp_all
  then have li: "length ?idx = n" by (metis distinct_card card_atLeastLessThan diff_zero)
  have rows: "\<forall>j < n. row ?out j = row rs (?idx ! j)"
    using li by (simp add: row_take_rows)
  from nargsort_keys [OF ok, of ?keys] obtain ks z where
    ks: "sorted ks" "map (\<lambda>i. ?keys ! i) ?idx = map Some ks @ replicate z None" by blast
  from nargsort_missing_order [OF ok, of ?keys] lk
  have mo: "filter (\<lambda>i. ?keys ! i = None) ?idx = filter (\<lambda>i. ?keys ! i = None) [0..<n]" by simp
  have "load_reminders w = Inr rs
     \<and> reminders_sorted to_datetime argsort rs = Inr ?out
     \<and> map fst ?out = map fst rs
     \<and> length ?idx = len rs \<and> distinct ?idx \<and> set ?idx = {0..<len rs}
     \<and> (\<forall>j < len rs. row ?out j = row rs (?idx ! j))
     \<and> sorted ks
     \<and> map (\<lambda>i. ?keys ! i) ?idx = map Some ks @ replicate z None
     \<and> filter (\<lambda>i. ?keys ! i = None) ?idx = filter (\<lambda>i. ?keys ! i = None) [0..<len rs]"
    unfolding ln using rs(1) out names li d rows ks mo by blast
  then show ?thesis unfolding cd by blast
qed


theorem dashboard_order_witness:
  "valid_store dated_store
   \<and> (\<exists>rs out. load_reminders dated_store = Inr rs
         \<and> reminders_sorted (map day_number) stable_argsort rs = Inr out
         \<and> map_of out ''title''
             = Some [StrV ''Dentist'', StrV ''Tax return'', StrV ''Call mum'', StrV ''Book flights'']
         \<and> (\<exists>idx ks z. distinct idx \<and> set idx = {0..<len rs}
               \<and> (\<forall>j < len rs. row out j = row rs (idx ! j))
               \<and> sorted ks
               \<and> map (\<lambda>i. map day_number (column dated_store ''date'') ! i) idx
                   = map Some ks @ replicate z None
               \<and> filter (\<lambda>i. map day_number (column dated_store ''date'') ! i = None) idx
                   = filter (\<lambda>i. map day_number (column dated_store ''date'') ! i = None) [0..<len rs]))"
proof -
  have v: "valid_store dated_store" by code_simp
  have l: "\<forall>vs. length (map day_number vs) = length vs" by simp
  have e: "(case load_reminders dated_store of
              Inl e \<Rightarrow> None
            | Inr rs \<Rightarrow> (case reminders_sorted (map day_number) stable_argsort rs of
                          Inl e \<Rightarrow> None | Inr out \<Rightarrow> map_of out ''title''))
       = Some [StrV ''Dentist'', StrV ''Tax return'', StrV ''Call mum'', StrV ''Book flights'']"
    by code_simp
  from dashboard_order [OF stable_argsort_ok l v] obtain rs out idx ks z where
    r: "load_reminders dated_store = Inr rs"
      "reminders_sorted (map day_number) stable_argsort rs = Inr out"
      "distinct idx" "set idx = {0..<len rs}"
      "\<forall>j < len rs. row out j = row rs (idx ! j)"
      "sorted ks"
      "map (\<lambda>i. map day_number (column dated_store ''date'') ! i) idx = map Some ks @ replicate z None"
      "filter (\<lambda>i. map day_number (column dated_store ''date'') ! i = None) idx
         = filter (\<lambda>i. map day_number (column dated_store ''date'') ! i = None) [0..<len rs]"
    by blast
  from e r(1,2) have t: "map_of out ''title''
      = Some [StrV ''Dentist'', StrV ''Tax return'', StrV ''Call mum'', StrV ''Book flights'']"
    by simp
  from v r t show ?thesis by blast
qed

end
